theory Spec2Isabelle
  imports Complex_Main
begin

section \<open>Values of the program\<close>

text \<open>
  The class \<^verbatim>\<open>Markov\<close> of \<^verbatim>\<open>dist/index.js\<close> is embedded with explicit state passing.
  A JavaScript string is a \<^typ>\<open>string\<close>, one \<^typ>\<open>char\<close> per code unit. The four ways a call
  can throw are values of \<open>error\<close>:
  \<^item> \<open>ModelNotBuilt\<close> is \<^verbatim>\<open>Error("Corpus is not built.")\<close>;
  \<^item> \<open>GenerationExhausted\<close> is \<^verbatim>\<open>Error("Cannot build sentence with current corpus and options")\<close>;
  \<^item> \<open>InvalidCorpusItem\<close> is \<^verbatim>\<open>Error('Objects in your corpus must have a "string" property')\<close>;
  \<^item> \<open>TypeError\<close> is the engine's error for a property read on \<^verbatim>\<open>undefined\<close> or a call of
    something that is no function.
\<close>

datatype error = ModelNotBuilt | GenerationExhausted | InvalidCorpusItem | TypeError

text \<open>
  The value of an item's \<^verbatim>\<open>string\<close> property: \<^verbatim>\<open>undefined\<close>, \<^verbatim>\<open>null\<close>, a boolean, a
  number, a string, or an object, named by its address, so that equality of \<open>jsval\<close> is
  the engine's SameValueZero.
\<close>

datatype jsval = JUndefined | JNull | JBool bool | JNum int | JStr string | JOther nat

text \<open>
  An item is an object owned by the caller. \<open>ident\<close> is its identity (its address): the
  program compares items by identity, never by content. \<open>string_prop\<close> is its own property
  \<^verbatim>\<open>string\<close>, \<open>None\<close> when the object has no such property.
\<close>

record item =
  ident :: nat
  string_prop :: "jsval option"

definition item_string :: "item \<Rightarrow> jsval" where
  "item_string it = (case string_prop it of None \<Rightarrow> JUndefined | Some v \<Rightarrow> v)"

text \<open>
  An element of the data array: any value. The documented elements are strings and
  objects; \<^verbatim>\<open>undefined\<close>, \<^verbatim>\<open>null\<close>, booleans and numbers are values a caller can put
  there all the same.
\<close>

datatype elem = EUndefined | ENull | EBool bool | ENum int | EStr string | EObj item

text \<open>\<^verbatim>\<open>{ words, refs }\<close>: an entry of startWords, of endWords or of a corpus list.\<close>

record fragment =
  words :: string
  refs :: "item list"

text \<open>\<^verbatim>\<open>{ string, score, scorePerWord, refs }\<close>: what generation returns.\<close>

record result =
  rstring :: string
  score :: int
  scorePerWord :: int
  rrefs :: "item list"

record options =
  stateSize :: int
  maxLength :: int
  minWords :: int
  maxWords :: int
  minScore :: int
  minScorePerWord :: int
  maxTries :: int
  checker :: "(string \<Rightarrow> bool) option"
  filter_opt :: "(result \<Rightarrow> bool) option"

text \<open>An options object passed by the caller: every property may be absent.\<close>

record options_arg =
  stateSize_arg :: "int option"
  maxLength_arg :: "int option"
  minWords_arg :: "int option"
  maxWords_arg :: "int option"
  minScore_arg :: "int option"
  minScorePerWord_arg :: "int option"
  maxTries_arg :: "int option"
  checker_arg :: "(string \<Rightarrow> bool) option"
  filter_arg :: "(result \<Rightarrow> bool) option"

type_synonym cmap = "string \<rightharpoonup> fragment list"

text \<open>
  The fields of a \<^verbatim>\<open>Markov\<close> object. \<open>corpus\<close> is \<open>None\<close> when the field holds a falsy value;
  \<open>Some C\<close> is an object whose own properties are the map \<open>C\<close>. The prototype of that
  object is no field of the model: generation is embedded for a corpus object that
  inherits from \<^verbatim>\<open>Object.prototype\<close>, as every corpus does unless a line has put
  \<^verbatim>\<open>__proto__\<close> before another word at state size 1.
\<close>

record model =
  data :: "elem list"
  options :: options
  startWords :: "fragment list"
  endWords :: "fragment list"
  corpus :: "cmap option"

section \<open>Strings and arrays\<close>

text \<open>\<^verbatim>\<open>s.split(" ")\<close>: never empty, \<^verbatim>\<open>"".split(" ")\<close> is \<^verbatim>\<open>[""]\<close>.\<close>

fun split_sp :: "string \<Rightarrow> string list" where
  "split_sp [] = [[]]"
| "split_sp (c # cs) =
     (if c = CHR '' '' then [] # split_sp cs
      else (case split_sp cs of [] \<Rightarrow> [[c]] | w # ws \<Rightarrow> (c # w) # ws))"

text \<open>\<^verbatim>\<open>xs.join(" ")\<close>.\<close>

fun join_sp :: "string list \<Rightarrow> string" where
  "join_sp [] = []"
| "join_sp [w] = w"
| "join_sp (w # v # ws) = w @ CHR '' '' # join_sp (v # ws)"

text \<open>
  \<^verbatim>\<open>_.slice(array, start, end)\<close> of lodash with numeric bounds: a negative start counts
  from the end (and is 0 when it reaches before the array), the end is cut to the length,
  a negative end counts from the end, and a start after the end gives the empty array.
\<close>

definition lodash_slice :: "'a list \<Rightarrow> int \<Rightarrow> int \<Rightarrow> 'a list" where
  "lodash_slice xs start end' =
     (let n = int (length xs);
          s = (if start < 0 then (if - start > n then 0 else n + start) else start);
          e1 = (if end' > n then n else end');
          e = (if e1 < 0 then e1 + n else e1)
      in if s > e then [] else take (nat (e - s)) (drop (nat s) xs))"

text \<open>\<^verbatim>\<open>_.includes(refs, item)\<close> on objects: identity.\<close>

definition includes_item :: "item list \<Rightarrow> item \<Rightarrow> bool" where
  "includes_item rs it = (ident it \<in> set (map ident rs))"

section \<open>The constructor\<close>

definition defaultOptions :: options where
  "defaultOptions = \<lparr> stateSize = 2, maxLength = 0, minWords = 0, maxWords = 0,
     minScore = 0, minScorePerWord = 0, maxTries = 10000, checker = None, filter_opt = None \<rparr>"

definition no_options :: options_arg where
  "no_options = \<lparr> stateSize_arg = None, maxLength_arg = None, minWords_arg = None,
     maxWords_arg = None, minScore_arg = None, minScorePerWord_arg = None,
     maxTries_arg = None, checker_arg = None, filter_arg = None \<rparr>"

text \<open>\<^verbatim>\<open>_.assignIn(target, source)\<close> on options: a property of the source wins.\<close>

definition pick :: "'a option \<Rightarrow> 'a \<Rightarrow> 'a" where
  "pick a d = (case a of None \<Rightarrow> d | Some v \<Rightarrow> v)"

definition assignIn :: "options \<Rightarrow> options_arg \<Rightarrow> options" where
  "assignIn t s = \<lparr> stateSize = pick (stateSize_arg s) (stateSize t),
     maxLength = pick (maxLength_arg s) (maxLength t),
     minWords = pick (minWords_arg s) (minWords t),
     maxWords = pick (maxWords_arg s) (maxWords t),
     minScore = pick (minScore_arg s) (minScore t),
     minScorePerWord = pick (minScorePerWord_arg s) (minScorePerWord t),
     maxTries = pick (maxTries_arg s) (maxTries t),
     checker = (case checker_arg s of None \<Rightarrow> checker t | Some f \<Rightarrow> Some f),
     filter_opt = (case filter_arg s of None \<Rightarrow> filter_opt t | Some f \<Rightarrow> Some f) \<rparr>"

text \<open>
  \<^verbatim>\<open>data.map(s => ({ string: s }))\<close>: every element, whatever it is, becomes the
  \<^verbatim>\<open>string\<close> property of a new object; the new objects are numbered by position.
\<close>

fun wrap :: "nat \<Rightarrow> elem \<Rightarrow> elem" where
  "wrap i EUndefined = EObj \<lparr> ident = i, string_prop = Some JUndefined \<rparr>"
| "wrap i ENull = EObj \<lparr> ident = i, string_prop = Some JNull \<rparr>"
| "wrap i (EBool b) = EObj \<lparr> ident = i, string_prop = Some (JBool b) \<rparr>"
| "wrap i (ENum n) = EObj \<lparr> ident = i, string_prop = Some (JNum n) \<rparr>"
| "wrap i (EStr s) = EObj \<lparr> ident = i, string_prop = Some (JStr s) \<rparr>"
| "wrap i (EObj ob) = EObj \<lparr> ident = i, string_prop = Some (JOther (ident ob)) \<rparr>"

fun wrap_all :: "nat \<Rightarrow> elem list \<Rightarrow> elem list" where
  "wrap_all i [] = []"
| "wrap_all i (d # ds) = wrap i d # wrap_all (Suc i) ds"

definition new_model :: "elem list \<Rightarrow> options_arg \<Rightarrow> model" where
  "new_model dat opts = \<lparr> data = dat, options = assignIn defaultOptions opts,
     startWords = [], endWords = [], corpus = Some Map.empty \<rparr>"

text \<open>
  Lines 13 to 40. \<^verbatim>\<open>data[0]\<close> of an empty array is \<^verbatim>\<open>undefined\<close>; reading
  \<^verbatim>\<open>hasOwnProperty\<close> of \<^verbatim>\<open>undefined\<close> or \<^verbatim>\<open>null\<close> throws a TypeError; a boolean
  or a number has no own property \<^verbatim>\<open>string\<close>.
\<close>

definition constructor :: "elem list \<Rightarrow> options_arg \<Rightarrow> error + model" where
  "constructor dat opts =
     (case dat of
        [] \<Rightarrow> Inl TypeError
      | d # _ \<Rightarrow>
          (case d of
             EStr s \<Rightarrow> Inr (new_model (wrap_all 0 dat) opts)
           | EUndefined \<Rightarrow> Inl TypeError
           | ENull \<Rightarrow> Inl TypeError
           | EBool b \<Rightarrow> Inl InvalidCorpusItem
           | ENum n \<Rightarrow> Inl InvalidCorpusItem
           | EObj ob \<Rightarrow>
               (if string_prop ob = None then Inl InvalidCorpusItem
                else Inr (new_model dat opts))))"

section \<open>Building the corpus\<close>

text \<open>
  Lines 66 to 74 and 77 to 85: find the first entry with these words; push the item on its
  refs unless it is there already; with no such entry, push a new entry.
\<close>

fun add_word :: "string \<Rightarrow> item \<Rightarrow> fragment list \<Rightarrow> fragment list" where
  "add_word k it [] = [\<lparr> words = k, refs = [it] \<rparr>]"
| "add_word k it (f # fs) =
     (if words f = k
      then (if includes_item (refs f) it then f else f\<lparr> refs := refs f @ [it] \<rparr>) # fs
      else f # add_word k it fs)"

text \<open>Lines 96 to 102: the same search in a corpus list, but the push is unconditional.\<close>

fun add_next :: "string \<Rightarrow> item \<Rightarrow> fragment list \<Rightarrow> fragment list" where
  "add_next k it [] = [\<lparr> words = k, refs = [it] \<rparr>]"
| "add_next k it (f # fs) =
     (if words f = k then f\<lparr> refs := refs f @ [it] \<rparr> # fs
      else f # add_next k it fs)"

text \<open>
  Lines 88 to 106: the body of the loop over the windows of a line, which ends with the
  corpus or throws. The map holds the own properties of the corpus object, and the object
  inherits from \<^verbatim>\<open>Object.prototype\<close>, which matters for two keys (both without a space,
  so at state size 1 only):
  \<^item> once the key \<^verbatim>\<open>hasOwnProperty\<close> is an own property, its value is an array, and the
    call \<^verbatim>\<open>this.corpus.hasOwnProperty(curr)\<close> of line 94 throws a TypeError;
  \<^item> \<^verbatim>\<open>__proto__\<close> is never an own property: the test of line 94 is false for it, and
    the assignment of line 105 goes to the setter that \<^verbatim>\<open>Object.prototype\<close> has for it,
    which replaces the prototype of the object and creates no property.
\<close>

definition window :: "int \<Rightarrow> item \<Rightarrow> string list \<Rightarrow> nat \<Rightarrow> cmap \<Rightarrow> error + cmap" where
  "window ss it ws i C =
     (let curr = join_sp (lodash_slice ws (int i) (int i + ss));
          next = join_sp (lodash_slice ws (int i + ss) (int i + ss * 2))
      in if next = [] \<or> int (length (split_sp next)) \<noteq> ss then Inr C
         else if C ''hasOwnProperty'' \<noteq> None then Inl TypeError
         else if curr = ''__proto__'' then Inr C
         else (case C curr of
                 Some fs \<Rightarrow> Inr (C(curr \<mapsto> add_next next it fs))
               | None \<Rightarrow> Inr (C(curr \<mapsto> [\<lparr> words = next, refs = [it] \<rparr>]))))"

text \<open>Line 87: the loop over the windows; an exception leaves what the earlier windows wrote.\<close>

fun windows :: "int \<Rightarrow> item \<Rightarrow> string list \<Rightarrow> nat list \<Rightarrow> cmap \<Rightarrow> error option \<times> cmap" where
  "windows ss it ws [] C = (None, C)"
| "windows ss it ws (i # js) C =
     (case window ss it ws i C of
        Inl e \<Rightarrow> (Some e, C)
      | Inr C' \<Rightarrow> windows ss it ws js C')"

text \<open>
  Lines 61 to 107: one item. Only an object has a \<^verbatim>\<open>string\<close> property that can be a
  string, and \<^verbatim>\<open>line.split\<close> throws unless the line is a string, before anything is
  written. An exception in the loop over the windows comes after the start words and the
  end words have been written.
\<close>

definition add_item ::
  "int \<Rightarrow> elem \<Rightarrow> fragment list \<times> fragment list \<times> cmap
     \<Rightarrow> error option \<times> fragment list \<times> fragment list \<times> cmap" where
  "add_item ss d st =
     (case d of
        EObj it \<Rightarrow>
          (case item_string it of
             JStr line \<Rightarrow>
               (case st of (S, E, C) \<Rightarrow>
                  (let ws = split_sp line;
                       start = join_sp (lodash_slice ws 0 ss);
                       end' = join_sp (lodash_slice ws (int (length ws) - ss) (int (length ws)))
                   in (case windows ss it ws [0 ..< length ws - 1] C of
                         (err, C') \<Rightarrow> (err, add_word start it S, add_word end' it E, C'))))
           | _ \<Rightarrow> (Some TypeError, st))
      | _ \<Rightarrow> (Some TypeError, st))"

text \<open>\<^verbatim>\<open>this.data.forEach\<close>: an exception leaves what has been written so far.\<close>

fun forEach_item ::
  "int \<Rightarrow> elem list \<Rightarrow> fragment list \<times> fragment list \<times> cmap
     \<Rightarrow> error option \<times> fragment list \<times> fragment list \<times> cmap" where
  "forEach_item ss [] st = (None, st)"
| "forEach_item ss (d # ds) st =
     (case add_item ss d st of
        (Some e, st') \<Rightarrow> (Some e, st')
      | (None, st') \<Rightarrow> forEach_item ss ds st')"

text \<open>
  Lines 57 to 109. Only \<^verbatim>\<open>this.corpus\<close> is set to the empty object; startWords and
  endWords are what the object holds at the call.
\<close>

definition buildCorpusSync :: "model \<Rightarrow> error option \<times> model" where
  "buildCorpusSync m =
     (case forEach_item (stateSize (options m)) (data m) (startWords m, endWords m, Map.empty) of
        (err, S, E, C) \<Rightarrow> (err, m\<lparr> startWords := S, endWords := E, corpus := Some C \<rparr>))"

section \<open>Generating a sentence\<close>

text \<open>
  The random source is a sequence \<open>rnd\<close> of numbers and a position in it: every draw
  reads the number at the position and moves the position by one.
  \<^verbatim>\<open>_.sample(xs)\<close> is \<^verbatim>\<open>undefined\<close> on an empty array, without a draw, and an element
  at a drawn index otherwise; \<^verbatim>\<open>_.sample(undefined)\<close> is \<^verbatim>\<open>undefined\<close>.
\<close>

definition sample :: "(nat \<Rightarrow> nat) \<Rightarrow> nat \<Rightarrow> 'a list \<Rightarrow> 'a option \<times> nat" where
  "sample rnd p xs =
     (if xs = [] then (None, p) else (Some (xs ! (rnd p mod length xs)), Suc p))"

text \<open>
  \<^verbatim>\<open>_.cloneDeep(this.corpus)\<close>: the copy holds copies of the items, which are new objects;
  \<open>cl a\<close> is the address of the copy of the object at address \<open>a\<close>.
\<close>

definition clone_val :: "(nat \<Rightarrow> nat) \<Rightarrow> jsval \<Rightarrow> jsval" where
  "clone_val cl v = (case v of JOther a \<Rightarrow> JOther (cl a) | _ \<Rightarrow> v)"

definition clone_item :: "(nat \<Rightarrow> nat) \<Rightarrow> item \<Rightarrow> item" where
  "clone_item cl it =
     \<lparr> ident = cl (ident it), string_prop = map_option (clone_val cl) (string_prop it) \<rparr>"

definition cloneDeep :: "(nat \<Rightarrow> nat) \<Rightarrow> cmap \<Rightarrow> cmap" where
  "cloneDeep cl C =
     (\<lambda>k. map_option (map (\<lambda>f. \<lparr> words = words f, refs = map (clone_item cl) (refs f) \<rparr>)) (C k))"

text \<open>\<^verbatim>\<open>_.some(this.endWords, { words: w })\<close>.\<close>

definition some_words :: "fragment list \<Rightarrow> string \<Rightarrow> bool" where
  "some_words ends w = list_ex (\<lambda>f. words f = w) ends"

text \<open>
  Lines 153 to 170, the loop that builds a sentence: from the path \<open>arr\<close>, the score and
  the counter \<open>limit\<close> to the path, the score and \<open>ended\<close> at the exit.
\<close>

function walk ::
  "cmap \<Rightarrow> fragment list \<Rightarrow> (nat \<Rightarrow> nat) \<Rightarrow> int \<Rightarrow> fragment list \<Rightarrow> int \<Rightarrow> int \<Rightarrow> nat
     \<Rightarrow> fragment list \<times> int \<times> bool \<times> nat" where
  "walk C ends rnd mx arr sc limit p =
     (if limit < mx then
        (case C (words (last arr)) of
           None \<Rightarrow> (arr, sc, False, p)
         | Some nexts \<Rightarrow>
             (case sample rnd p nexts of
                (None, p') \<Rightarrow> (arr, sc, False, p')
              | (Some state, p') \<Rightarrow>
                  (if some_words ends (words state)
                   then (arr @ [state], sc + (int (length nexts) - 1), True, p')
                   else walk C ends rnd mx (arr @ [state]) (sc + (int (length nexts) - 1))
                          (limit + 1) p')))
      else (arr, sc, False, p))"
  by pat_completeness auto
termination
  by (relation "measure (\<lambda>(C, ends, rnd, mx, arr, sc, limit, p). nat (mx - limit))") auto

text \<open>\<^verbatim>\<open>Math.ceil(score / arr.length)\<close>, on exact numbers.\<close>

definition ceil_div :: "int \<Rightarrow> nat \<Rightarrow> int" where
  "ceil_div a n = \<lceil>(of_int a :: rat) / of_nat n\<rceil>"

text \<open>\<^verbatim>\<open>s.trim()\<close>: the white space of the engine among the code units below 256.\<close>

definition is_space :: "char \<Rightarrow> bool" where
  "is_space c = (c \<in> {CHR 0x09, CHR 0x0A, CHR 0x0B, CHR 0x0C, CHR 0x0D, CHR 0x20, CHR 0xA0})"

definition trim :: "string \<Rightarrow> string" where
  "trim s = rev (dropWhile is_space (rev (dropWhile is_space s)))"

text \<open>
  \<^verbatim>\<open>_.uniqBy(xs, key)\<close>: an element is kept when its key is not among the keys seen so far.
\<close>

fun uniq_loop :: "('a \<Rightarrow> 'b) \<Rightarrow> 'a list \<Rightarrow> 'b list \<Rightarrow> 'a list" where
  "uniq_loop f [] seen = []"
| "uniq_loop f (x # xs) seen =
     (if f x \<in> set seen then uniq_loop f xs seen else x # uniq_loop f xs (seen @ [f x]))"

definition uniqBy :: "('a \<Rightarrow> 'b) \<Rightarrow> 'a list \<Rightarrow> 'a list" where
  "uniqBy f xs = uniq_loop f xs []"

text \<open>Lines 171 to 178.\<close>

definition make_result :: "fragment list \<Rightarrow> int \<Rightarrow> result" where
  "make_result arr sc =
     \<lparr> rstring = trim (join_sp (map words arr)),
       score = sc,
       scorePerWord = ceil_div sc (length arr),
       rrefs = uniqBy item_string (concat (map refs arr)) \<rparr>"

text \<open>Lines 180 to 187: the condition under which the attempt is dropped.\<close>

definition rejected :: "options \<Rightarrow> bool \<Rightarrow> result \<Rightarrow> bool" where
  "rejected opts ended res =
     (\<not> ended \<or>
      (case checker opts of Some c \<Rightarrow> \<not> c (rstring res) | None \<Rightarrow> False) \<or>
      (case filter_opt opts of Some f \<Rightarrow> \<not> f res | None \<Rightarrow> False) \<or>
      (minWords opts \<noteq> 0 \<and> minWords opts > 0 \<and>
         int (length (split_sp (rstring res))) < minWords opts) \<or>
      (maxWords opts \<noteq> 0 \<and> maxWords opts > 0 \<and>
         int (length (split_sp (rstring res))) > maxWords opts) \<or>
      (maxLength opts \<noteq> 0 \<and> maxLength opts > 0 \<and> int (length (rstring res)) > maxLength opts) \<or>
      (minScore opts \<noteq> 0 \<and> score res < minScore opts) \<or>
      (minScorePerWord opts \<noteq> 0 \<and> scorePerWord res < minScorePerWord opts))"

text \<open>
  Lines 147 to 192, the loop over the tries. It returns what the call returns or throws,
  the value of the counter \<open>i\<close> at the exit, and the position of the random source.
  With no start words the first element of the path is \<^verbatim>\<open>undefined\<close>, and reading its
  \<^verbatim>\<open>words\<close> throws.
\<close>

function tries ::
  "model \<Rightarrow> cmap \<Rightarrow> options \<Rightarrow> (nat \<Rightarrow> nat) \<Rightarrow> int \<Rightarrow> int \<Rightarrow> nat
     \<Rightarrow> (error + result) \<times> int \<times> nat" where
  "tries m C opts rnd mx i p =
     (if i < mx then
        (case sample rnd p (startWords m) of
           (None, p1) \<Rightarrow> (Inl TypeError, i, p1)
         | (Some start, p1) \<Rightarrow>
             (case walk C (endWords m) rnd mx [start] 0 0 p1 of
                (arr, sc, ended, p2) \<Rightarrow>
                  (if rejected opts ended (make_result arr sc)
                   then tries m C opts rnd mx (i + 1) p2
                   else (Inr (make_result arr sc), i, p2))))
      else (Inl GenerationExhausted, i, p))"
  by pat_completeness auto
termination
  by (relation "measure (\<lambda>(m, C, opts, rnd, mx, i, p). nat (mx - i))") auto

text \<open>Lines 136 to 193.\<close>

definition generateSentenceSync ::
  "model \<Rightarrow> options_arg \<Rightarrow> (nat \<Rightarrow> nat) \<Rightarrow> (nat \<Rightarrow> nat) \<Rightarrow> nat
     \<Rightarrow> (error + result) \<times> int \<times> nat" where
  "generateSentenceSync m arg cl rnd p =
     (case corpus m of
        None \<Rightarrow> (Inl ModelNotBuilt, 0, p)
      | Some C0 \<Rightarrow>
          (let opts = assignIn (options m) arg
           in tries m (cloneDeep cl C0) opts rnd (maxTries opts) 0 p))"

section \<open>Notions the statements use\<close>


text \<open>The start key, the end key and the windows of one line, as \<open>add_item\<close> computes them.\<close>

definition start_key :: "int \<Rightarrow> string \<Rightarrow> string" where
  "start_key ss line = join_sp (lodash_slice (split_sp line) 0 ss)"

definition end_key :: "int \<Rightarrow> string \<Rightarrow> string" where
  "end_key ss line = join_sp (lodash_slice (split_sp line)
     (int (length (split_sp line)) - ss) (int (length (split_sp line))))"

definition line_windows :: "int \<Rightarrow> item \<Rightarrow> string \<Rightarrow> cmap \<Rightarrow> error option \<times> cmap" where
  "line_windows ss it line C =
     windows ss it (split_sp line) [0 ..< length (split_sp line) - 1] C"



text \<open>
  Every key and every successor of a corpus has \<open>ss\<close> words, and no successor is the
  empty string (which \<open>split_sp\<close> counts as one empty word).
\<close>

definition sized :: "int \<Rightarrow> cmap \<Rightarrow> bool" where
  "sized ss C = (\<forall>k fs. C k = Some fs \<longrightarrow>
     int (length (split_sp k)) = ss \<and>
     (\<forall>f \<in> set fs. words f \<noteq> [] \<and> int (length (split_sp (words f))) = ss))"

text \<open>
  The score as the specification words it: the sum, over the steps of a path, of the
  number of successors available at the step minus one.
\<close>

fun path_score :: "cmap \<Rightarrow> fragment list \<Rightarrow> int" where
  "path_score C (f # g # fs) =
     (case C (words f) of None \<Rightarrow> 0 | Some nexts \<Rightarrow> int (length nexts) - 1) + path_score C (g # fs)"
| "path_score C fs = 0"

text \<open>Every element of a path after the first is one of the successors of the element before it.\<close>

fun steps_ok :: "cmap \<Rightarrow> fragment list \<Rightarrow> bool" where
  "steps_ok C (f # g # fs) =
     ((case C (words f) of None \<Rightarrow> False | Some nexts \<Rightarrow> g \<in> set nexts) \<and> steps_ok C (g # fs))"
| "steps_ok C fs = True"

text \<open>
  Deduplication as the specification words it: the first occurrence of a key wins, in
  the order of the list.
\<close>

fun first_by :: "('a \<Rightarrow> 'b) \<Rightarrow> 'a list \<Rightarrow> 'a list" where
  "first_by f [] = []"
| "first_by f (x # xs) = x # first_by f (filter (\<lambda>y. f y \<noteq> f x) xs)"

subsection \<open>Concrete models\<close>

text \<open>The scenario of the specification, after the constructor.\<close>

definition cats :: model where
  "cats = new_model
     (wrap_all 0 [EStr ''the cat sat on the mat'', EStr ''the dog sat on the rug'']) no_options"

text \<open>Two objects of a caller.\<close>

definition item_a :: item where
  "item_a = \<lparr> ident = 0, string_prop = Some (JStr ''x y z'') \<rparr>"

definition item_b :: item where
  "item_b = \<lparr> ident = 1, string_prop = Some (JStr ''p q r'') \<rparr>"

text \<open>The scenario after a build.\<close>

definition built_cats :: model where
  "built_cats = snd (buildCorpusSync cats)"

text \<open>Options that configure every constraint.\<close>

definition strict :: options_arg where
  "strict = no_options\<lparr> maxLength_arg := Some 40, minWords_arg := Some 3, maxWords_arg := Some 10,
     minScore_arg := Some 1, minScorePerWord_arg := Some 1,
     checker_arg := Some (\<lambda>s. s \<noteq> []), filter_arg := Some (\<lambda>r. score r < 5) \<rparr>"

text \<open>One line of two words, at the default state size of two.\<close>

definition ab :: model where
  "ab = new_model (wrap_all 0 [EStr ''a b'']) no_options"

text \<open>Two lines with the same text: two items, one text.\<close>

definition twins :: model where
  "twins = new_model (wrap_all 0 [EStr ''a b c d'', EStr ''a b c d'']) no_options"

text \<open>One line in which the pair of states a, b occurs twice, at state size one.\<close>

definition abab :: model where
  "abab = new_model [EObj \<lparr> ident = 7, string_prop = Some (JStr ''a b a b'') \<rparr>]
     (no_options\<lparr> stateSize_arg := Some 1 \<rparr>)"

text \<open>Data whose first element is well formed and whose later elements are not.\<close>

definition late_bad :: "elem list" where
  "late_bad = [EObj item_a, EObj \<lparr> ident = 5, string_prop = None \<rparr>, EStr ''loose'']"

text \<open>The same, with a string first: the constructor wraps every element.\<close>

definition late_str :: "elem list" where
  "late_str = [EStr ''a b'', EObj \<lparr> ident = 5, string_prop = None \<rparr>, ENull]"

text \<open>One line that ends in a space, at state size one: its last word is empty.\<close>

definition trail :: model where
  "trail = new_model [EObj \<lparr> ident = 3, string_prop = Some (JStr ''a b '') \<rparr>]
     (no_options\<lparr> stateSize_arg := Some 1 \<rparr>)"

text \<open>A second object with the text of \<open>item_a\<close>.\<close>

definition item_a2 :: item where
  "item_a2 = \<lparr> ident = 9, string_prop = Some (JStr ''x y z'') \<rparr>"

text \<open>Data that hold the one object \<open>item_a\<close> twice, at state size one.\<close>

definition twice :: model where
  "twice = new_model [EObj item_a, EObj item_a] (no_options\<lparr> stateSize_arg := Some 1 \<rparr>)"

text \<open>Data that hold two objects with one text, at state size one.\<close>

definition pair :: model where
  "pair = new_model [EObj item_a, EObj item_a2] (no_options\<lparr> stateSize_arg := Some 1 \<rparr>)"

text \<open>A random source that takes the second entry at its third draw and the first otherwise.\<close>

definition second_at_2 :: "nat \<Rightarrow> nat" where
  "second_at_2 n = (if n = 2 then 1 else 0)"

text \<open>Lines that write the two keys the corpus object inherits a meaning for, at state size one.\<close>

definition own_key :: model where
  "own_key = new_model [EObj \<lparr> ident = 4, string_prop = Some (JStr ''hasOwnProperty a b'') \<rparr>]
     (no_options\<lparr> stateSize_arg := Some 1 \<rparr>)"

definition proto_key :: model where
  "proto_key = new_model [EObj \<lparr> ident = 6, string_prop = Some (JStr ''__proto__ a __proto__ b c'') \<rparr>]
     (no_options\<lparr> stateSize_arg := Some 1 \<rparr>)"

section \<open>Strings and slices\<close>

lemma ceil_div_int: "ceil_div a n = - ((- a) div int n)"
  unfolding ceil_div_def using ceiling_divide_eq_div [of a "int n", where ?'a = rat] by simp

lemma split_sp_not_Nil: "split_sp s \<noteq> []"
  by (induction s) (auto split: list.splits)

lemma split_sp_no_space: "w \<in> set (split_sp s) \<Longrightarrow> CHR '' '' \<notin> set w"
  by (induction s arbitrary: w) (auto split: list.splits if_splits)

lemma split_sp_word: "CHR '' '' \<notin> set w \<Longrightarrow> split_sp w = [w]"
  by (induction w) auto

lemma split_sp_append: "CHR '' '' \<notin> set w \<Longrightarrow> split_sp (w @ CHR '' '' # s) = w # split_sp s"
  by (induction w) auto

lemma split_join:
  "ws \<noteq> [] \<Longrightarrow> \<forall>w \<in> set ws. CHR '' '' \<notin> set w \<Longrightarrow> split_sp (join_sp ws) = ws"
  by (induction ws rule: join_sp.induct) (auto simp: split_sp_word split_sp_append)

lemma join_sp_Nil: "join_sp ws = [] \<longleftrightarrow> ws = [] \<or> ws = [[]]"
  by (induction ws rule: join_sp.induct) auto

lemma set_lodash_slice: "set (lodash_slice xs s e) \<subseteq> set xs"
  unfolding lodash_slice_def Let_def
  by (auto dest!: in_set_takeD in_set_dropD)

lemma length_lodash_slice:
  "0 \<le> s \<Longrightarrow> 0 \<le> e \<Longrightarrow> length (lodash_slice xs s e) = nat (min e (int (length xs)) - s)"
  unfolding lodash_slice_def Let_def by auto

lemma ceil_div_real: "ceil_div a n = \<lceil>real_of_int a / real n\<rceil>"
  using ceiling_divide_eq_div [of a "int n", where ?'a = real] by (simp add: ceil_div_int)

lemma tokens_join_slice:
  assumes ws: "\<forall>w \<in> set ws. CHR '' '' \<notin> set w"
    and ne: "join_sp (lodash_slice ws s e) \<noteq> []"
  shows "int (length (split_sp (join_sp (lodash_slice ws s e)))) = int (length (lodash_slice ws s e))"
proof -
  have "lodash_slice ws s e \<noteq> []" using ne by auto
  moreover have "\<forall>w \<in> set (lodash_slice ws s e). CHR '' '' \<notin> set w"
    using ws set_lodash_slice [of ws s e] by blast
  ultimately show ?thesis by (simp add: split_join)
qed

lemma full_next_full_curr:
  assumes ws: "\<forall>w \<in> set ws. CHR '' '' \<notin> set w"
    and ne: "join_sp (lodash_slice ws (int i + ss) (int i + ss * 2)) \<noteq> []"
    and n: "int (length (split_sp (join_sp (lodash_slice ws (int i + ss) (int i + ss * 2))))) = ss"
  shows "int (length (split_sp (join_sp (lodash_slice ws (int i) (int i + ss))))) = ss"
proof -
  have len: "int (length (lodash_slice ws (int i + ss) (int i + ss * 2))) = ss"
    using tokens_join_slice [OF ws ne] n by simp
  have "lodash_slice ws (int i + ss) (int i + ss * 2) \<noteq> []" using ne by auto
  then have "0 < length (lodash_slice ws (int i + ss) (int i + ss * 2))" by simp
  then have pos: "0 < ss" using len by linarith
  then have "int (nat (min (int i + ss * 2) (int (length ws)) - (int i + ss))) = ss"
    using len by (simp add: length_lodash_slice)
  then have fits: "int i + ss * 2 \<le> int (length ws)" using pos by linarith
  then have l2: "int (length (lodash_slice ws (int i) (int i + ss))) = ss"
    using pos by (simp add: length_lodash_slice)
  then have "0 < length (lodash_slice ws (int i) (int i + ss))" using pos by linarith
  then have "lodash_slice ws (int i) (int i + ss) \<noteq> []" by simp
  moreover have "\<forall>w \<in> set (lodash_slice ws (int i) (int i + ss)). CHR '' '' \<notin> set w"
    using ws set_lodash_slice [of ws "int i" "int i + ss"] by blast
  ultimately show ?thesis using l2 by (simp add: split_join)
qed

section \<open>The corpus builder\<close>




lemma add_word_not_Nil: "add_word k it S \<noteq> []"
  by (cases S) auto

lemma add_item_cases:
  "add_item ss d (S, E, C) =
     (case d of
        EObj it \<Rightarrow> (case item_string it of
           JStr line \<Rightarrow> (fst (line_windows ss it line C), add_word (start_key ss line) it S,
                          add_word (end_key ss line) it E, snd (line_windows ss it line C))
         | _ \<Rightarrow> (Some TypeError, S, E, C))
      | _ \<Rightarrow> (Some TypeError, S, E, C))"
  by (simp add: add_item_def Let_def start_key_def end_key_def line_windows_def case_prod_beta
      split: elem.splits jsval.splits)

lemma add_item_kinds [case_names bad line]:
  assumes "(\<And>S' E' C'. add_item ss d (S', E', C') = (Some TypeError, S', E', C')) \<Longrightarrow> P"
    and "\<And>it line. d = EObj it \<Longrightarrow> item_string it = JStr line \<Longrightarrow>
           add_item ss d (S, E, C) =
             (fst (line_windows ss it line C), add_word (start_key ss line) it S,
              add_word (end_key ss line) it E, snd (line_windows ss it line C)) \<Longrightarrow> P"
  shows P
proof -
  have "(\<forall>S' E' C'. add_item ss d (S', E', C') = (Some TypeError, S', E', C')) \<or>
      (\<exists>it line. d = EObj it \<and> item_string it = JStr line \<and>
         add_item ss d (S, E, C) =
           (fst (line_windows ss it line C), add_word (start_key ss line) it S,
            add_word (end_key ss line) it E, snd (line_windows ss it line C)))"
    by (auto simp: add_item_cases split: elem.splits jsval.splits)
  then show ?thesis using assms by blast
qed

lemma words_add_next: "f \<in> set (add_next k it fs) \<Longrightarrow> words f = k \<or> words f \<in> words ` set fs"
  by (induction fs) (auto split: if_splits)

lemma window_skip:
  assumes "int (length (lodash_slice (split_sp line) (int i + ss) (int i + ss * 2))) \<noteq> ss"
  shows "window ss it (split_sp line) i C = Inr C"
proof -
  let ?sl = "lodash_slice (split_sp line) (int i + ss) (int i + ss * 2)"
  have ws: "\<forall>w \<in> set (split_sp line). CHR '' '' \<notin> set w"
    by (simp add: split_sp_no_space)
  have "join_sp ?sl = [] \<or> int (length (split_sp (join_sp ?sl))) \<noteq> ss"
  proof (cases "join_sp ?sl = []")
    case True
    then show ?thesis by simp
  next
    case False
    then show ?thesis using tokens_join_slice [OF ws False] assms by simp
  qed
  then show ?thesis by (auto simp: window_def Let_def)
qed

lemma sized_window:
  assumes ws: "\<forall>w \<in> set ws. CHR '' '' \<notin> set w" and C: "sized ss C"
    and w: "window ss it ws i C = Inr C'"
  shows "sized ss C'"
proof -
  let ?curr = "join_sp (lodash_slice ws (int i) (int i + ss))"
  let ?next = "join_sp (lodash_slice ws (int i + ss) (int i + ss * 2))"
  show ?thesis
  proof (cases "?next = [] \<or> int (length (split_sp ?next)) \<noteq> ss")
    case True
    then have "C' = C" using w by (auto simp: window_def Let_def)
    then show ?thesis using C by simp
  next
    case False
    then have n: "int (length (split_sp ?next)) = ss" and ne: "?next \<noteq> []" by auto
    have c: "int (length (split_sp ?curr)) = ss"
      using full_next_full_curr [OF ws ne n] .
    have h: "C ''hasOwnProperty'' = None"
      using w False by (auto simp: window_def Let_def split: if_splits)
    show ?thesis
    proof (cases "?curr = ''__proto__''")
      case True
      then have "C' = C" using w False h by (simp add: window_def Let_def)
      then show ?thesis using C by simp
    next
      case np: False
      show ?thesis
      proof (cases "C ?curr")
        case None
        then have "C' = C(?curr \<mapsto> [\<lparr> words = ?next, refs = [it] \<rparr>])"
          using w False h np by (simp add: window_def Let_def)
        then show ?thesis using C c n ne by (auto simp: sized_def)
      next
        case (Some fs)
        then have e: "C' = C(?curr \<mapsto> add_next ?next it fs)"
          using w False h np by (simp add: window_def Let_def)
        have "\<forall>f \<in> set fs. words f \<noteq> [] \<and> int (length (split_sp (words f))) = ss"
          using C Some by (auto simp: sized_def)
        then have "\<forall>f \<in> set (add_next ?next it fs).
            words f \<noteq> [] \<and> int (length (split_sp (words f))) = ss"
          using words_add_next [of _ ?next it fs] n ne by fastforce
        then show ?thesis using C c e by (auto simp: sized_def)
      qed
    qed
  qed
qed

lemma sized_windows:
  "\<forall>w \<in> set ws. CHR '' '' \<notin> set w \<Longrightarrow> sized ss C \<Longrightarrow>
     sized ss (snd (windows ss it ws js C))"
proof (induction js arbitrary: C)
  case Nil
  then show ?case by simp
next
  case (Cons j js)
  show ?case
  proof (cases "window ss it ws j C")
    case (Inl e)
    then show ?thesis using Cons.prems(2) by simp
  next
    case (Inr C')
    then have "sized ss C'" using sized_window [OF Cons.prems(1,2)] by blast
    then show ?thesis using Cons.IH [OF Cons.prems(1)] Inr by simp
  qed
qed

lemma sized_add_item:
  assumes "sized ss C"
  shows "sized ss (snd (snd (snd (add_item ss d (S, E, C)))))"
proof (cases rule: add_item_kinds [where ss=ss and d=d and S=S and E=E and C=C])
  case bad
  then show ?thesis using assms by simp
next
  case (line it line)
  then show ?thesis using assms sized_windows [of "split_sp line" ss C it]
    by (simp add: line_windows_def split_sp_no_space)
qed

lemma sized_forEach_item:
  "forEach_item ss ds (S, E, C) = (err, S', E', C') \<Longrightarrow> sized ss C \<Longrightarrow> sized ss C'"
proof (induction ds arbitrary: S E C)
  case Nil
  then show ?case by simp
next
  case (Cons d ds)
  obtain e S1 E1 C1 where a: "add_item ss d (S, E, C) = (e, S1, E1, C1)"
    by (metis prod_cases4)
  have s1: "sized ss C1" using sized_add_item [OF Cons.prems(2), of d S E] a by simp
  show ?case
  proof (cases e)
    case None
    then have "forEach_item ss ds (S1, E1, C1) = (err, S', E', C')"
      using Cons.prems(1) a by simp
    from Cons.IH [OF this s1] show ?thesis .
  next
    case (Some x)
    then have "C' = C1" using Cons.prems(1) a by simp
    then show ?thesis using s1 by simp
  qed
qed







text \<open>Lines too short for a transition.\<close>

lemma window_short:
  assumes ws: "\<forall>w \<in> set ws. CHR '' '' \<notin> set w" and short: "int (length ws) < 2 * ss"
  shows "window ss it ws i C = Inr C"
proof -
  let ?sl = "lodash_slice ws (int i + ss) (int i + ss * 2)"
  have pos: "0 < ss" using short by linarith
  then have len: "int (length ?sl) < ss"
    using short by (simp add: length_lodash_slice)
  have "join_sp ?sl = [] \<or> int (length (split_sp (join_sp ?sl))) \<noteq> ss"
  proof (cases "join_sp ?sl = []")
    case True
    then show ?thesis by simp
  next
    case False
    then show ?thesis using tokens_join_slice [OF ws False] len by simp
  qed
  then show ?thesis by (auto simp: window_def Let_def)
qed

lemma windows_short:
  "\<forall>w \<in> set ws. CHR '' '' \<notin> set w \<Longrightarrow> int (length ws) < 2 * ss \<Longrightarrow>
     windows ss it ws js C = (None, C)"
  by (induction js arbitrary: C) (simp_all add: window_short)

lemma line_windows_short:
  "int (length (split_sp line)) < 2 * ss \<Longrightarrow> line_windows ss it line C = (None, C)"
  unfolding line_windows_def by (simp add: windows_short split_sp_no_space)

lemma forEach_item_short:
  assumes "forEach_item ss ds (S, E, C) = (err, S', E', C')"
    and "\<forall>it line. EObj it \<in> set ds \<longrightarrow> item_string it = JStr line \<longrightarrow>
           int (length (split_sp line)) < 2 * ss"
  shows "C' = C"
  using assms
proof (induction ds arbitrary: S E)
  case Nil
  then show ?case by simp
next
  case (Cons d ds)
  show ?case
  proof (cases rule: add_item_kinds [where ss=ss and d=d and S=S and E=E and C=C])
    case bad
    then show ?thesis using Cons.prems(1) by simp
  next
    case (line it line)
    have "int (length (split_sp line)) < 2 * ss" using Cons.prems(2) line(1,2) by simp
    then have a: "add_item ss d (S, E, C) =
        (None, add_word (start_key ss line) it S, add_word (end_key ss line) it E, C)"
      using line(3) by (simp add: line_windows_short)
    then have "forEach_item ss ds (add_word (start_key ss line) it S,
        add_word (end_key ss line) it E, C) = (err, S', E', C')"
      using Cons.prems(1) by simp
    from Cons.IH [OF this] show ?thesis using Cons.prems(2) by simp
  qed
qed

lemma forEach_item_start_not_Nil:
  "forEach_item ss ds (S, E, C) = (None, S', E', C') \<Longrightarrow> ds \<noteq> [] \<or> S \<noteq> [] \<Longrightarrow> S' \<noteq> []"
proof (induction ds arbitrary: S E C)
  case Nil
  then show ?case by simp
next
  case (Cons d ds)
  show ?case
  proof (cases rule: add_item_kinds [where ss=ss and d=d and S=S and E=E and C=C])
    case bad
    then show ?thesis using Cons.prems(1) by simp
  next
    case (line it line)
    show ?thesis
    proof (cases "fst (line_windows ss it line C)")
      case None
      then have "forEach_item ss ds (add_word (start_key ss line) it S,
          add_word (end_key ss line) it E, snd (line_windows ss it line C)) = (None, S', E', C')"
        using Cons.prems(1) line(3) by simp
      from Cons.IH [OF this] show ?thesis by (simp add: add_word_not_Nil)
    next
      case (Some x)
      then show ?thesis using Cons.prems(1) line(3) by simp
    qed
  qed
qed

lemma length_wrap_all: "length (wrap_all k ds) = length ds"
  by (induction ds arbitrary: k) simp_all

lemma nth_wrap_all: "i < length ds \<Longrightarrow> wrap_all k ds ! i = wrap (k + i) (ds ! i)"
proof (induction ds arbitrary: k i)
  case Nil
  then show ?case by simp
next
  case (Cons d ds)
  then show ?case by (cases i) simp_all
qed

text \<open>The two ways of adding a ref.\<close>

lemma add_word_distinct:
  "\<forall>g \<in> set fs. distinct (map ident (refs g)) \<Longrightarrow>
     \<forall>g \<in> set (add_word k it fs). distinct (map ident (refs g))"
  by (induction fs) (auto simp: includes_item_def)

lemma find_add_word:
  "List.find (\<lambda>g. words g = k) fs = Some f \<Longrightarrow>
     List.find (\<lambda>g. words g = k) (add_word k it fs)
       = Some (if includes_item (refs f) it then f else f\<lparr> refs := refs f @ [it] \<rparr>)"
  by (induction fs) (auto split: if_splits)

lemma find_add_next:
  "List.find (\<lambda>g. words g = k) fs = Some f \<Longrightarrow>
     List.find (\<lambda>g. words g = k) (add_next k it fs) = Some (f\<lparr> refs := refs f @ [it] \<rparr>)"
  by (induction fs) (auto split: if_splits)

lemma add_word_unchanged:
  "List.find (\<lambda>g. words g = k) fs = Some f \<Longrightarrow> includes_item (refs f) it \<Longrightarrow>
     add_word k it fs = fs"
  by (induction fs) (auto split: if_splits)

lemma length_add_word: "List.find (\<lambda>g. words g = k) fs = Some f \<Longrightarrow>
     length (add_word k it fs) = length fs"
  by (induction fs) (auto split: if_splits)

lemma length_add_next: "List.find (\<lambda>g. words g = k) fs = Some f \<Longrightarrow>
     length (add_next k it fs) = length fs"
  by (induction fs) (auto split: if_splits)

lemma find_add_new:
  "List.find (\<lambda>g. words g = k) fs = None \<Longrightarrow>
     add_word k it fs = fs @ [\<lparr> words = k, refs = [it] \<rparr>] \<and>
     add_next k it fs = fs @ [\<lparr> words = k, refs = [it] \<rparr>]"
  by (induction fs) (auto split: if_splits)

lemma constructor_unbuilt:
  "constructor dat copts = Inr m \<Longrightarrow> startWords m = [] \<and> corpus m = Some Map.empty"
  by (auto simp: constructor_def new_model_def split: list.splits elem.splits if_splits)

section \<open>The walk and the tries\<close>

declare walk.simps [simp del] tries.simps [simp del]

lemma walk_stop: "\<not> limit < mx \<Longrightarrow> walk C ends rnd mx arr sc limit p = (arr, sc, False, p)"
  by (simp add: walk.simps)

lemma walk_none:
  "C (words (last arr)) = None \<Longrightarrow> walk C ends rnd mx arr sc limit p = (arr, sc, False, p)"
  by (simp add: walk.simps)

lemma walk_empty:
  "C (words (last arr)) = Some [] \<Longrightarrow> walk C ends rnd mx arr sc limit p = (arr, sc, False, p)"
  by (simp add: walk.simps sample_def)

lemma walk_end:
  "limit < mx \<Longrightarrow> C (words (last arr)) = Some nexts \<Longrightarrow> nexts \<noteq> [] \<Longrightarrow>
   some_words ends (words (nexts ! (rnd p mod length nexts))) \<Longrightarrow>
   walk C ends rnd mx arr sc limit p =
     (arr @ [nexts ! (rnd p mod length nexts)], sc + (int (length nexts) - 1), True, Suc p)"
  by (simp add: walk.simps [of C ends rnd mx arr] sample_def)

lemma walk_more:
  "limit < mx \<Longrightarrow> C (words (last arr)) = Some nexts \<Longrightarrow> nexts \<noteq> [] \<Longrightarrow>
   \<not> some_words ends (words (nexts ! (rnd p mod length nexts))) \<Longrightarrow>
   walk C ends rnd mx arr sc limit p =
     walk C ends rnd mx (arr @ [nexts ! (rnd p mod length nexts)]) (sc + (int (length nexts) - 1))
       (limit + 1) (Suc p)"
  by (simp add: walk.simps [of C ends rnd mx arr] sample_def)

lemma walk_cases [case_names stop none empty ended more]:
  assumes "\<not> limit < mx \<Longrightarrow> P"
    and "C (words (last arr)) = None \<Longrightarrow> P"
    and "C (words (last arr)) = Some [] \<Longrightarrow> P"
    and "\<And>nexts. limit < mx \<Longrightarrow> C (words (last arr)) = Some nexts \<Longrightarrow> nexts \<noteq> [] \<Longrightarrow>
           some_words ends (words (nexts ! (rnd p mod length nexts))) \<Longrightarrow> P"
    and "\<And>nexts. limit < mx \<Longrightarrow> C (words (last arr)) = Some nexts \<Longrightarrow> nexts \<noteq> [] \<Longrightarrow>
           \<not> some_words ends (words (nexts ! (rnd p mod length nexts))) \<Longrightarrow> P"
  shows P
proof (cases "limit < mx")
  case False
  then show ?thesis using assms(1) by simp
next
  case True
  show ?thesis
  proof (cases "C (words (last arr))")
    case None
    then show ?thesis using assms(2) by simp
  next
    case (Some nexts)
    then show ?thesis using assms(3,4,5) True by (cases "nexts = []") blast+
  qed
qed

lemma path_score_snoc:
  "arr \<noteq> [] \<Longrightarrow> path_score C (arr @ [s]) =
     path_score C arr + (case C (words (last arr)) of None \<Rightarrow> 0 | Some nexts \<Rightarrow> int (length nexts) - 1)"
  by (induction C arr rule: path_score.induct) auto

lemma steps_ok_snoc:
  "arr \<noteq> [] \<Longrightarrow> steps_ok C (arr @ [s]) =
     (steps_ok C arr \<and> (case C (words (last arr)) of None \<Rightarrow> False | Some nexts \<Rightarrow> s \<in> set nexts))"
  by (induction C arr rule: steps_ok.induct) auto

lemma walk_bound:
  "walk C ends rnd mx arr sc limit p = (arr', sc', e, p') \<Longrightarrow>
     length arr' \<le> length arr + nat (mx - limit) \<and> p \<le> p' \<and> p' \<le> p + nat (mx - limit)"
proof (induction "nat (mx - limit)" arbitrary: arr sc limit p)
  case 0
  then show ?case by (simp add: walk_stop)
next
  case (Suc n)
  then have n: "n = nat (mx - (limit + 1))" by linarith
  show ?case
  proof (cases rule: walk_cases [where limit=limit and mx=mx and C=C and arr=arr and ends=ends and rnd=rnd and p=p])
    case stop
    then show ?thesis using Suc.prems by (simp add: walk_stop)
  next
    case none
    then show ?thesis using Suc.prems by (simp add: walk_none)
  next
    case empty
    then show ?thesis using Suc.prems by (simp add: walk_empty)
  next
    case (ended nexts)
    then show ?thesis using Suc.prems Suc.hyps(2) by (auto simp: walk_end)
  next
    case (more nexts)
    then have "walk C ends rnd mx (arr @ [nexts ! (rnd p mod length nexts)])
        (sc + (int (length nexts) - 1)) (limit + 1) (Suc p) = (arr', sc', e, p')"
      using Suc.prems by (simp add: walk_more)
    from Suc.hyps(1) [OF n this] show ?thesis using Suc.hyps(2) by simp linarith
  qed
qed

lemma walk_path:
  "walk C ends rnd mx arr sc limit p = (arr', sc', e, p') \<Longrightarrow> arr \<noteq> [] \<Longrightarrow>
     (\<exists>suf. arr' = arr @ suf) \<and>
     sc' - path_score C arr' = sc - path_score C arr \<and>
     (steps_ok C arr \<longrightarrow> steps_ok C arr') \<and>
     (e \<longrightarrow> some_words ends (words (last arr')) \<and> length arr < length arr')"
proof (induction "nat (mx - limit)" arbitrary: arr sc limit p)
  case 0
  then show ?case by (simp add: walk_stop)
next
  case (Suc n)
  then have n: "n = nat (mx - (limit + 1))" by linarith
  show ?case
  proof (cases rule: walk_cases [where limit=limit and mx=mx and C=C and arr=arr and ends=ends and rnd=rnd and p=p])
    case stop
    then show ?thesis using Suc.prems by (simp add: walk_stop)
  next
    case none
    then show ?thesis using Suc.prems by (simp add: walk_none)
  next
    case empty
    then show ?thesis using Suc.prems by (simp add: walk_empty)
  next
    case (ended nexts)
    then show ?thesis using Suc.prems
      by (auto simp: walk_end path_score_snoc steps_ok_snoc)
  next
    case (more nexts)
    let ?s = "nexts ! (rnd p mod length nexts)"
    have w: "walk C ends rnd mx (arr @ [?s]) (sc + (int (length nexts) - 1)) (limit + 1) (Suc p)
        = (arr', sc', e, p')"
      using more Suc.prems by (simp add: walk_more)
    have ne: "arr @ [?s] \<noteq> []" by simp
    have mem: "?s \<in> set nexts" using more(3) by simp
    from Suc.hyps(1) [OF n w ne] show ?thesis
      using more(2) mem Suc.prems(2) by (auto simp: path_score_snoc steps_ok_snoc)
  qed
qed

lemma path_score_forced:
  "\<forall>k nexts. C k = Some nexts \<longrightarrow> length nexts \<le> 1 \<Longrightarrow> steps_ok C arr \<Longrightarrow> path_score C arr = 0"
proof (induction C arr rule: path_score.induct)
  case (1 C f g fs)
  then obtain nexts where n: "C (words f) = Some nexts" and g: "g \<in> set nexts"
    by (auto split: option.splits)
  then have "length nexts \<le> 1" using "1.prems"(1) by blast
  moreover have "nexts \<noteq> []" using g by auto
  ultimately have "length nexts = 1" by (cases nexts) auto
  then show ?case using 1 n by simp
qed simp_all

lemma tries_stop: "\<not> i < mx \<Longrightarrow> tries m C opts rnd mx i p = (Inl GenerationExhausted, i, p)"
  by (simp add: tries.simps)

lemma tries_no_start:
  "i < mx \<Longrightarrow> startWords m = [] \<Longrightarrow> tries m C opts rnd mx i p = (Inl TypeError, i, p)"
  by (simp add: tries.simps sample_def)

lemma tries_step:
  "i < mx \<Longrightarrow> startWords m \<noteq> [] \<Longrightarrow>
   walk C (endWords m) rnd mx [startWords m ! (rnd p mod length (startWords m))] 0 0 (Suc p)
     = (arr, sc, e, p2) \<Longrightarrow>
   tries m C opts rnd mx i p =
     (if rejected opts e (make_result arr sc) then tries m C opts rnd mx (i + 1) p2
      else (Inr (make_result arr sc), i, p2))"
  by (simp add: tries.simps [of m C opts rnd mx i p] sample_def)

lemma tries_accepted:
  "tries m C opts rnd mx i p = (Inr r, i', p') \<Longrightarrow>
     \<exists>q arr sc q'. startWords m \<noteq> [] \<and>
       walk C (endWords m) rnd mx [startWords m ! (rnd q mod length (startWords m))] 0 0 (Suc q)
         = (arr, sc, True, q') \<and>
       r = make_result arr sc \<and> \<not> rejected opts True r"
proof (induction "nat (mx - i)" arbitrary: i p)
  case 0
  then show ?case by (simp add: tries_stop)
next
  case (Suc n)
  then have lt: "i < mx" and n: "n = nat (mx - (i + 1))" by linarith+
  show ?case
  proof (cases "startWords m = []")
    case True
    then show ?thesis using Suc.prems lt by (simp add: tries_no_start)
  next
    case False
    obtain arr sc e p2 where w:
      "walk C (endWords m) rnd mx [startWords m ! (rnd p mod length (startWords m))] 0 0 (Suc p)
         = (arr, sc, e, p2)"
      by (metis prod_cases4)
    show ?thesis
    proof (cases "rejected opts e (make_result arr sc)")
      case True
      then have "tries m C opts rnd mx (i + 1) p2 = (Inr r, i', p')"
        using Suc.prems tries_step [OF lt False w] by simp
      from Suc.hyps(1) [OF n this] show ?thesis .
    next
      case rej: False
      then have r: "r = make_result arr sc" using Suc.prems tries_step [OF lt False w] by simp
      have "e" using rej by (auto simp: rejected_def)
      then have "e = True" by simp
      then show ?thesis using False w r rej by fastforce
    qed
  qed
qed

lemma tries_outcome:
  "tries m C opts rnd mx i p = (out, i', p') \<Longrightarrow>
     ((out = Inl GenerationExhausted \<and> i' = max i mx) \<or>
      (out = Inl TypeError \<and> startWords m = [] \<and> i' = i \<and> i < mx) \<or>
      (\<exists>r. out = Inr r \<and> i \<le> i' \<and> i' < mx)) \<and>
     p \<le> p' \<and> p' \<le> p + nat (mx - i) * (1 + nat mx)"
proof (induction "nat (mx - i)" arbitrary: i p)
  case 0
  then show ?case by (simp add: tries_stop)
next
  case (Suc n)
  then have lt: "i < mx" and n: "n = nat (mx - (i + 1))" by linarith+
  have sn: "nat (mx - i) = Suc n" using Suc.hyps(2) by simp
  show ?case
  proof (cases "startWords m = []")
    case True
    then show ?thesis using Suc.prems lt by (simp add: tries_no_start)
  next
    case False
    obtain arr sc e p2 where w:
      "walk C (endWords m) rnd mx [startWords m ! (rnd p mod length (startWords m))] 0 0 (Suc p)
         = (arr, sc, e, p2)"
      by (metis prod_cases4)
    have pb: "Suc p \<le> p2 \<and> p2 \<le> Suc p + nat mx" using walk_bound [OF w] by simp
    show ?thesis
    proof (cases "rejected opts e (make_result arr sc)")
      case True
      then have "tries m C opts rnd mx (i + 1) p2 = (out, i', p')"
        using Suc.prems tries_step [OF lt False w] by simp
      from Suc.hyps(1) [OF n this] have
        o: "(out = Inl GenerationExhausted \<and> i' = max (i + 1) mx) \<or>
            (out = Inl TypeError \<and> startWords m = [] \<and> i' = i + 1 \<and> i + 1 < mx) \<or>
            (\<exists>r. out = Inr r \<and> i + 1 \<le> i' \<and> i' < mx)"
        and b: "p2 \<le> p'" "p' \<le> p2 + nat (mx - (i + 1)) * (1 + nat mx)" by auto
      have "p' \<le> p + nat (mx - i) * (1 + nat mx)"
        using b(2) pb n sn by simp
      moreover have "p \<le> p'" using b(1) pb by simp
      moreover have "(out = Inl GenerationExhausted \<and> i' = max i mx) \<or>
          (out = Inl TypeError \<and> startWords m = [] \<and> i' = i \<and> i < mx) \<or>
          (\<exists>r. out = Inr r \<and> i \<le> i' \<and> i' < mx)"
        using o lt False by auto
      ultimately show ?thesis by blast
    next
      case rej: False
      then have "out = Inr (make_result arr sc)" "i' = i" "p' = p2"
        using Suc.prems tries_step [OF lt False w] by simp_all
      then show ?thesis using lt pb sn by simp
    qed
  qed
qed

lemma tries_no_transitions:
  "\<forall>k. C k = None \<Longrightarrow> startWords m \<noteq> [] \<Longrightarrow>
     tries m C opts rnd mx i p = (Inl GenerationExhausted, max i mx, p + nat (mx - i))"
proof (induction "nat (mx - i)" arbitrary: i p)
  case 0
  then show ?case by (simp add: tries_stop)
next
  case (Suc n)
  then have lt: "i < mx" and n: "n = nat (mx - (i + 1))" by linarith+
  let ?s = "startWords m ! (rnd p mod length (startWords m))"
  have w: "walk C (endWords m) rnd mx [?s] 0 0 (Suc p) = ([?s], 0, False, Suc p)"
    using Suc.prems(1) by (simp add: walk_none)
  have "rejected opts False (make_result [?s] 0)" by (simp add: rejected_def)
  then have "tries m C opts rnd mx i p = tries m C opts rnd mx (i + 1) (Suc p)"
    using tries_step [OF lt Suc.prems(2) w] by simp
  then show ?case using Suc.hyps(1) [OF n Suc.prems] lt Suc.hyps(2) by simp
qed

lemma generate_accepted:
  assumes "generateSentenceSync m arg cl rnd p = (Inr r, i, p')"
  obtains C0 q arr sc q' where "corpus m = Some C0" and "startWords m \<noteq> []"
    and "walk (cloneDeep cl C0) (endWords m) rnd (maxTries (assignIn (options m) arg))
           [startWords m ! (rnd q mod length (startWords m))] 0 0 (Suc q) = (arr, sc, True, q')"
    and "r = make_result arr sc" and "\<not> rejected (assignIn (options m) arg) True r"
proof (cases "corpus m")
  case None
  then show ?thesis using assms by (simp add: generateSentenceSync_def)
next
  case (Some C0)
  then have "tries m (cloneDeep cl C0) (assignIn (options m) arg) rnd
      (maxTries (assignIn (options m) arg)) 0 p = (Inr r, i, p')"
    using assms by (simp add: generateSentenceSync_def Let_def)
  from tries_accepted [OF this] show ?thesis using that Some by blast
qed

lemma cloneDeep_empty: "cloneDeep cl Map.empty k = None"
  by (simp add: cloneDeep_def)

lemma generate_no_transitions:
  "corpus m = Some Map.empty \<Longrightarrow> startWords m \<noteq> [] \<Longrightarrow>
     generateSentenceSync m arg cl rnd p =
       (Inl GenerationExhausted, max 0 (maxTries (assignIn (options m) arg)),
        p + nat (maxTries (assignIn (options m) arg)))"
  using tries_no_transitions [of "cloneDeep cl Map.empty" m "assignIn (options m) arg" rnd
      "maxTries (assignIn (options m) arg)" 0 p]
  by (simp add: generateSentenceSync_def Let_def cloneDeep_empty)

section \<open>Deduplication by key\<close>

lemma uniq_loop_first_by:
  "uniq_loop f xs seen = first_by f (filter (\<lambda>y. f y \<notin> set seen) xs)"
proof (induction xs arbitrary: seen)
  case Nil
  then show ?case by simp
next
  case (Cons x xs)
  show ?case
  proof (cases "f x \<in> set seen")
    case True
    then show ?thesis using Cons.IH by simp
  next
    case False
    have "filter (\<lambda>y. f y \<noteq> f x) (filter (\<lambda>y. f y \<notin> set seen) xs)
        = filter (\<lambda>y. f y \<notin> set (seen @ [f x])) xs"
      by (induction xs) auto
    then show ?thesis using False Cons.IH [of "seen @ [f x]"] by simp
  qed
qed

lemma uniqBy_first_by: "uniqBy f xs = first_by f xs"
  by (simp add: uniqBy_def uniq_loop_first_by)

lemma set_first_by: "set (first_by f xs) \<subseteq> set xs"
proof (induction "length xs" arbitrary: xs rule: less_induct)
  case less
  show ?case
  proof (cases xs)
    case Nil
    then show ?thesis by simp
  next
    case (Cons x ys)
    have "length (filter (\<lambda>y. f y \<noteq> f x) ys) < length xs"
      using Cons by (simp add: le_imp_less_Suc)
    from less [OF this] show ?thesis using Cons by auto
  qed
qed

lemma keys_first_by: "f ` set (first_by f xs) = f ` set xs"
proof (induction "length xs" arbitrary: xs rule: less_induct)
  case less
  show ?case
  proof (cases xs)
    case Nil
    then show ?thesis by simp
  next
    case (Cons x ys)
    have "length (filter (\<lambda>y. f y \<noteq> f x) ys) < length xs"
      using Cons by (simp add: le_imp_less_Suc)
    from less [OF this] have "f ` set (first_by f (filter (\<lambda>y. f y \<noteq> f x) ys))
       = f ` set (filter (\<lambda>y. f y \<noteq> f x) ys)" .
    then show ?thesis using Cons by auto
  qed
qed

lemma distinct_first_by: "distinct (map f (first_by f xs))"
proof (induction "length xs" arbitrary: xs rule: less_induct)
  case less
  show ?case
  proof (cases xs)
    case Nil
    then show ?thesis by simp
  next
    case (Cons x ys)
    have l: "length (filter (\<lambda>y. f y \<noteq> f x) ys) < length xs"
      using Cons by (simp add: le_imp_less_Suc)
    have "f x \<notin> f ` set (filter (\<lambda>y. f y \<noteq> f x) ys)" by auto
    then have "f x \<notin> f ` set (first_by f (filter (\<lambda>y. f y \<noteq> f x) ys))"
      using keys_first_by [of f "filter (\<lambda>y. f y \<noteq> f x) ys"] by simp
    then show ?thesis using less [OF l] Cons by simp
  qed
qed

section \<open>Claims about the corpus builder\<close>

lemmas build_eval = buildCorpusSync_def add_item_def window_def lodash_slice_def Let_def
  new_model_def assignIn_def defaultOptions_def no_options_def pick_def item_string_def
  includes_item_def

text \<open>
  The two inherited keys at work. After the key \<^verbatim>\<open>hasOwnProperty\<close> is written, the next
  window that reaches line 94 throws, with the start and end words of the item and the
  one transition written. A window from \<^verbatim>\<open>__proto__\<close> writes no property, and the other
  windows of the line are written as usual.
\<close>

lemma build_own_key:
  "fst (buildCorpusSync own_key) = Some TypeError \<and>
   map words (startWords (snd (buildCorpusSync own_key))) = [''hasOwnProperty''] \<and>
   map words (endWords (snd (buildCorpusSync own_key))) = [''b''] \<and>
   map_option (map words) (the (corpus (snd (buildCorpusSync own_key))) ''hasOwnProperty'')
     = Some [''a''] \<and>
   the (corpus (snd (buildCorpusSync own_key))) ''a'' = None"
  by (simp add: build_eval own_key_def)

lemma build_proto_key:
  "fst (buildCorpusSync proto_key) = None \<and>
   the (corpus (snd (buildCorpusSync proto_key))) ''__proto__'' = None \<and>
   map_option (map words) (the (corpus (snd (buildCorpusSync proto_key))) ''a'')
     = Some [''__proto__''] \<and>
   map_option (map words) (the (corpus (snd (buildCorpusSync proto_key))) ''b'') = Some [''c'']"
  by (simp add: build_eval proto_key_def)



text \<open>
  C3: in every built model, every key of the corpus has exactly stateSize words, and the
  words of every transition under it are a state key of exactly stateSize words that is
  not the empty string. A window whose successor has another number of words than
  stateSize, as the trailing windows of a line have, leaves the corpus as it is: it is
  never inserted as a transition.
\<close>

theorem corpus_state_keys:
  assumes "corpus (snd (buildCorpusSync m)) = Some C" and "C k = Some fs"
  shows "int (length (split_sp k)) = stateSize (options m) \<and>
         (\<forall>f \<in> set fs. words f \<noteq> [] \<and>
            int (length (split_sp (words f))) = stateSize (options m)) \<and>
         (\<forall>line i it D.
            int (length (lodash_slice (split_sp line) (int i + stateSize (options m))
                  (int i + stateSize (options m) * 2))) \<noteq> stateSize (options m) \<longrightarrow>
            window (stateSize (options m)) it (split_sp line) i D = Inr D)"
proof -
  obtain err S E C' where f: "forEach_item (stateSize (options m)) (data m)
       (startWords m, endWords m, Map.empty) = (err, S, E, C')"
    by (metis prod_cases4)
  then have "corpus (snd (buildCorpusSync m)) = Some C'"
    by (simp add: buildCorpusSync_def)
  then have c: "C' = C" using assms(1) by simp
  have "sized (stateSize (options m)) Map.empty" by (simp add: sized_def)
  then have "sized (stateSize (options m)) C'" using sized_forEach_item [OF f] by simp
  then have "int (length (split_sp k)) = stateSize (options m) \<and>
         (\<forall>f \<in> set fs. words f \<noteq> [] \<and>
            int (length (split_sp (words f))) = stateSize (options m))"
    using assms(2) c by (simp add: sized_def)
  then show ?thesis by (simp add: window_skip)
qed

theorem corpus_state_keys_witness:
  "(\<exists>C fs. corpus (snd (buildCorpusSync trail)) = Some C \<and> stateSize (options trail) = 1 \<and>
      C ''a'' = Some fs \<and> map words fs = [''b''] \<and> C ''b'' = None \<and>
      int (length (split_sp ''a'')) = stateSize (options trail) \<and>
      (\<forall>f \<in> set fs. words f \<noteq> [] \<and>
         int (length (split_sp (words f))) = stateSize (options trail))) \<and>
   (\<exists>C fs. corpus (snd (buildCorpusSync cats)) = Some C \<and> C ''sat on'' = Some fs \<and>
      map words fs = [''the mat'', ''the rug''] \<and> C ''the mat'' = None \<and>
      int (length (split_sp ''sat on'')) = stateSize (options cats) \<and>
      (\<forall>f \<in> set fs. words f \<noteq> [] \<and>
         int (length (split_sp (words f))) = stateSize (options cats)))"
proof
  obtain C where c: "corpus (snd (buildCorpusSync trail)) = Some C"
    by (simp add: buildCorpusSync_def case_prod_beta)
  have s: "stateSize (options trail) = 1"
    by (simp add: trail_def new_model_def assignIn_def no_options_def pick_def)
  have "map_option (map words) (the (corpus (snd (buildCorpusSync trail))) ''a'') = Some [''b'']"
    by (simp add: build_eval trail_def)
  then obtain fs where fs: "C ''a'' = Some fs" and w: "map words fs = [''b'']"
    using c by auto
  have "the (corpus (snd (buildCorpusSync trail))) ''b'' = None"
    by (simp add: build_eval trail_def)
  then have n: "C ''b'' = None" using c by simp
  from corpus_state_keys [OF c fs] have
    k: "int (length (split_sp ''a'')) = stateSize (options trail)"
    and t: "\<forall>f \<in> set fs. words f \<noteq> [] \<and>
         int (length (split_sp (words f))) = stateSize (options trail)"
    by blast+
  show "\<exists>C fs. corpus (snd (buildCorpusSync trail)) = Some C \<and> stateSize (options trail) = 1 \<and>
      C ''a'' = Some fs \<and> map words fs = [''b''] \<and> C ''b'' = None \<and>
      int (length (split_sp ''a'')) = stateSize (options trail) \<and>
      (\<forall>f \<in> set fs. words f \<noteq> [] \<and>
         int (length (split_sp (words f))) = stateSize (options trail))"
    by (intro exI [of _ C] exI [of _ fs] conjI) (rule c s fs w n k t)+
next
  obtain C where c: "corpus (snd (buildCorpusSync cats)) = Some C"
    by (simp add: buildCorpusSync_def case_prod_beta)
  have "map_option (map words) (the (corpus (snd (buildCorpusSync cats))) ''sat on'')
      = Some [''the mat'', ''the rug'']"
    by (simp add: build_eval cats_def)
  then obtain fs where fs: "C ''sat on'' = Some fs" and w: "map words fs = [''the mat'', ''the rug'']"
    using c by auto
  have "the (corpus (snd (buildCorpusSync cats))) ''the mat'' = None"
    by (simp add: build_eval cats_def)
  then have n: "C ''the mat'' = None" using c by simp
  from corpus_state_keys [OF c fs] have
    k: "int (length (split_sp ''sat on'')) = stateSize (options cats)"
    and t: "\<forall>f \<in> set fs. words f \<noteq> [] \<and>
         int (length (split_sp (words f))) = stateSize (options cats)"
    by blast+
  show "\<exists>C fs. corpus (snd (buildCorpusSync cats)) = Some C \<and> C ''sat on'' = Some fs \<and>
      map words fs = [''the mat'', ''the rug''] \<and> C ''the mat'' = None \<and>
      int (length (split_sp ''sat on'')) = stateSize (options cats) \<and>
      (\<forall>f \<in> set fs. words f \<noteq> [] \<and>
         int (length (split_sp (words f))) = stateSize (options cats))"
    by (intro exI [of _ C] exI [of _ fs] conjI) (rule c fs w n k t)+
qed

text \<open>
  C8: the builder deduplicates refs on one side only. When an entry of startWords or
  endWords with the key exists, the item is pushed on its refs exactly when no ref of the
  entry is that object (the test is on identity, not on the text), and the entry is left
  as it is otherwise; when a transition with the successor exists in a corpus list, the
  item is pushed unconditionally. So an item in whose words a pair of states recurs is
  twice in the refs of one transition: in the model \<open>abab\<close> the transition from a to b
  holds the one item twice, and the start entry and the end entry hold it once.
\<close>

theorem refs_dedup_asymmetry:
  assumes "List.find (\<lambda>g. words g = k) fs = Some f"
  shows "List.find (\<lambda>g. words g = k) (add_word k it fs)
           = Some (if ident it \<in> ident ` set (refs f) then f else f\<lparr> refs := refs f @ [it] \<rparr>) \<and>
         (ident it \<in> ident ` set (refs f) \<longrightarrow> add_word k it fs = fs) \<and>
         length (add_word k it fs) = length fs \<and>
         List.find (\<lambda>g. words g = k) (add_next k it fs) = Some (f\<lparr> refs := refs f @ [it] \<rparr>) \<and>
         length (add_next k it fs) = length fs \<and>
         ((\<forall>g \<in> set fs. distinct (map ident (refs g))) \<longrightarrow>
            (\<forall>g \<in> set (add_word k it fs). distinct (map ident (refs g)))) \<and>
         (\<exists>C d. corpus (snd (buildCorpusSync abab)) = Some C \<and>
            C ''a'' = Some [\<lparr> words = ''b'', refs = [d, d] \<rparr>] \<and>
            startWords (snd (buildCorpusSync abab)) = [\<lparr> words = ''a'', refs = [d] \<rparr>] \<and>
            endWords (snd (buildCorpusSync abab)) = [\<lparr> words = ''b'', refs = [d] \<rparr>])"
proof -
  let ?d = "\<lparr> ident = 7, string_prop = Some (JStr ''a b a b'') \<rparr>"
  obtain C where c: "corpus (snd (buildCorpusSync abab)) = Some C"
    by (simp add: buildCorpusSync_def case_prod_beta)
  have "the (corpus (snd (buildCorpusSync abab))) ''a'' = Some [\<lparr> words = ''b'', refs = [?d, ?d] \<rparr>]"
    by (simp add: build_eval abab_def)
  then have a: "C ''a'' = Some [\<lparr> words = ''b'', refs = [?d, ?d] \<rparr>]" using c by simp
  have s: "startWords (snd (buildCorpusSync abab)) = [\<lparr> words = ''a'', refs = [?d] \<rparr>]"
    by (simp add: build_eval abab_def)
  have e: "endWords (snd (buildCorpusSync abab)) = [\<lparr> words = ''b'', refs = [?d] \<rparr>]"
    by (simp add: build_eval abab_def)
  have ex: "\<exists>C d. corpus (snd (buildCorpusSync abab)) = Some C \<and>
            C ''a'' = Some [\<lparr> words = ''b'', refs = [d, d] \<rparr>] \<and>
            startWords (snd (buildCorpusSync abab)) = [\<lparr> words = ''a'', refs = [d] \<rparr>] \<and>
            endWords (snd (buildCorpusSync abab)) = [\<lparr> words = ''b'', refs = [d] \<rparr>]"
    by (intro exI [of _ C] exI [of _ ?d] conjI) (rule c a s e)+
  have w: "List.find (\<lambda>g. words g = k) (add_word k it fs)
           = Some (if ident it \<in> ident ` set (refs f) then f else f\<lparr> refs := refs f @ [it] \<rparr>)"
    using find_add_word [OF assms, of it] by (simp add: includes_item_def)
  have u: "ident it \<in> ident ` set (refs f) \<longrightarrow> add_word k it fs = fs"
    using add_word_unchanged [OF assms, of it] by (simp add: includes_item_def)
  show ?thesis
    using w u find_add_next [OF assms, of it] add_word_distinct [of fs k it] ex
      length_add_word [OF assms, of it] length_add_next [OF assms, of it]
    by simp
qed

theorem refs_dedup_asymmetry_witness:
  "List.find (\<lambda>g. words g = ''x'')
      [\<lparr> words = ''p'', refs = [item_b] \<rparr>, \<lparr> words = ''x'', refs = [item_a] \<rparr>]
     = Some \<lparr> words = ''x'', refs = [item_a] \<rparr> \<and>
   ident item_a2 \<notin> ident ` set [item_a] \<and> item_string item_a2 = item_string item_a \<and>
   List.find (\<lambda>g. words g = ''x'') (add_word ''x'' item_a2
      [\<lparr> words = ''p'', refs = [item_b] \<rparr>, \<lparr> words = ''x'', refs = [item_a] \<rparr>])
     = Some \<lparr> words = ''x'', refs = [item_a, item_a2] \<rparr> \<and>
   List.find (\<lambda>g. words g = ''x'') (add_next ''x'' item_a2
      [\<lparr> words = ''p'', refs = [item_b] \<rparr>, \<lparr> words = ''x'', refs = [item_a] \<rparr>])
     = Some \<lparr> words = ''x'', refs = [item_a, item_a2] \<rparr> \<and>
   ident item_a \<in> ident ` set [item_a] \<and>
   add_word ''x'' item_a [\<lparr> words = ''p'', refs = [item_b] \<rparr>, \<lparr> words = ''x'', refs = [item_a] \<rparr>]
     = [\<lparr> words = ''p'', refs = [item_b] \<rparr>, \<lparr> words = ''x'', refs = [item_a] \<rparr>] \<and>
   List.find (\<lambda>g. words g = ''x'') (add_next ''x'' item_a
      [\<lparr> words = ''p'', refs = [item_b] \<rparr>, \<lparr> words = ''x'', refs = [item_a] \<rparr>])
     = Some \<lparr> words = ''x'', refs = [item_a, item_a] \<rparr> \<and>
   startWords (snd (buildCorpusSync pair)) = [\<lparr> words = ''x'', refs = [item_a, item_a2] \<rparr>] \<and>
   the (corpus (snd (buildCorpusSync pair))) ''x''
     = Some [\<lparr> words = ''y'', refs = [item_a, item_a2] \<rparr>] \<and>
   startWords (snd (buildCorpusSync twice)) = [\<lparr> words = ''x'', refs = [item_a] \<rparr>] \<and>
   endWords (snd (buildCorpusSync twice)) = [\<lparr> words = ''z'', refs = [item_a] \<rparr>] \<and>
   the (corpus (snd (buildCorpusSync twice))) ''x''
     = Some [\<lparr> words = ''y'', refs = [item_a, item_a] \<rparr>]"
proof -
  let ?fs = "[\<lparr> words = ''p'', refs = [item_b] \<rparr>, \<lparr> words = ''x'', refs = [item_a] \<rparr>]"
  have f: "List.find (\<lambda>g. words g = ''x'') ?fs = Some \<lparr> words = ''x'', refs = [item_a] \<rparr>"
    by simp
  have new: "ident item_a2 \<notin> ident ` set [item_a]" and old: "ident item_a \<in> ident ` set [item_a]"
    and same: "item_string item_a2 = item_string item_a"
    by (simp_all add: item_a_def item_a2_def item_string_def)
  have p: "startWords (snd (buildCorpusSync pair)) = [\<lparr> words = ''x'', refs = [item_a, item_a2] \<rparr>]"
    "the (corpus (snd (buildCorpusSync pair))) ''x''
       = Some [\<lparr> words = ''y'', refs = [item_a, item_a2] \<rparr>]"
    by (simp_all add: build_eval pair_def item_a_def item_a2_def)
  have t: "startWords (snd (buildCorpusSync twice)) = [\<lparr> words = ''x'', refs = [item_a] \<rparr>]"
    "endWords (snd (buildCorpusSync twice)) = [\<lparr> words = ''z'', refs = [item_a] \<rparr>]"
    "the (corpus (snd (buildCorpusSync twice))) ''x''
       = Some [\<lparr> words = ''y'', refs = [item_a, item_a] \<rparr>]"
    by (simp_all add: build_eval twice_def item_a_def)
  from refs_dedup_asymmetry [OF f, of item_a2] refs_dedup_asymmetry [OF f, of item_a]
  show ?thesis using f new old same p t by simp
qed

text \<open>
  C10, as it is written, fails: the error for a missing \<^verbatim>\<open>string\<close> property is not
  raised for every first element that is no string and has no such property. With
  \<^verbatim>\<open>null\<close> or \<^verbatim>\<open>undefined\<close> first, line 33 reads \<^verbatim>\<open>hasOwnProperty\<close> of it and the
  engine throws a TypeError.
\<close>

theorem constructor_null_counterexample:
  "constructor [ENull, EStr ''a b''] no_options = Inl TypeError \<and>
   constructor [EUndefined, EStr ''a b''] no_options = Inl TypeError"
  by (simp add: constructor_def)

text \<open>
  C10, amended: the constructor looks at the first element of the data only. (The call
  of \<^verbatim>\<open>_checkOptions\<close> writes a warning and changes nothing.) When the first element is a
  string, every element, whatever it is, is wrapped: element \<open>i\<close> of the stored data is a
  new object, the \<open>i\<close>-th, whose \<^verbatim>\<open>string\<close> property is element \<open>i\<close> of the argument.
  When it is an object with a \<^verbatim>\<open>string\<close> property, the data are stored as they are,
  whatever the later elements are. The error for a missing \<^verbatim>\<open>string\<close> property is raised
  exactly when the first element is an object, a boolean or a number without that
  property; a TypeError is thrown exactly when the data are empty or the first element
  is \<^verbatim>\<open>null\<close> or \<^verbatim>\<open>undefined\<close>. Whether the constructor throws, and what, does not
  depend on the later elements.
\<close>

theorem constructor_first_element:
  "(constructor dat copts = Inl InvalidCorpusItem \<longleftrightarrow>
      (\<exists>ds. (\<exists>ob. dat = EObj ob # ds \<and> string_prop ob = None) \<or>
            (\<exists>b. dat = EBool b # ds) \<or> (\<exists>n. dat = ENum n # ds))) \<and>
   (constructor dat copts = Inl TypeError \<longleftrightarrow>
      dat = [] \<or> (\<exists>ds. dat = EUndefined # ds \<or> dat = ENull # ds)) \<and>
   (\<forall>ob ds. dat = EObj ob # ds \<and> string_prop ob \<noteq> None \<longrightarrow>
      (\<exists>m. constructor dat copts = Inr m \<and> data m = dat \<and>
         options m = assignIn defaultOptions copts \<and>
         startWords m = [] \<and> endWords m = [] \<and> corpus m = Some Map.empty)) \<and>
   (\<forall>s ds. dat = EStr s # ds \<longrightarrow>
      (\<exists>m. constructor dat copts = Inr m \<and>
         options m = assignIn defaultOptions copts \<and>
         startWords m = [] \<and> endWords m = [] \<and> corpus m = Some Map.empty \<and>
         length (data m) = length dat \<and>
         (\<forall>i < length dat. \<exists>v. data m ! i = EObj \<lparr> ident = i, string_prop = Some v \<rparr>) \<and>
         (\<forall>i < length dat. \<forall>t. dat ! i = EStr t \<longrightarrow>
            data m ! i = EObj \<lparr> ident = i, string_prop = Some (JStr t) \<rparr>) \<and>
         (\<forall>i < length dat. \<forall>ob. dat ! i = EObj ob \<longrightarrow>
            data m ! i = EObj \<lparr> ident = i, string_prop = Some (JOther (ident ob)) \<rparr>) \<and>
         (\<forall>i < length dat. dat ! i = ENull \<longrightarrow>
            data m ! i = EObj \<lparr> ident = i, string_prop = Some JNull \<rparr>))) \<and>
   (\<forall>d ds ds' e. constructor (d # ds) copts = Inl e \<longleftrightarrow> constructor (d # ds') copts = Inl e)"
proof (intro conjI)
  show "constructor dat copts = Inl InvalidCorpusItem \<longleftrightarrow>
      (\<exists>ds. (\<exists>ob. dat = EObj ob # ds \<and> string_prop ob = None) \<or>
            (\<exists>b. dat = EBool b # ds) \<or> (\<exists>n. dat = ENum n # ds))"
    by (auto simp: constructor_def split: list.splits elem.splits)
next
  show "constructor dat copts = Inl TypeError \<longleftrightarrow>
      dat = [] \<or> (\<exists>ds. dat = EUndefined # ds \<or> dat = ENull # ds)"
    by (auto simp: constructor_def split: list.splits elem.splits)
next
  show "\<forall>ob ds. dat = EObj ob # ds \<and> string_prop ob \<noteq> None \<longrightarrow>
      (\<exists>m. constructor dat copts = Inr m \<and> data m = dat \<and>
         options m = assignIn defaultOptions copts \<and>
         startWords m = [] \<and> endWords m = [] \<and> corpus m = Some Map.empty)"
    by (auto simp: constructor_def new_model_def)
next
  show "\<forall>s ds. dat = EStr s # ds \<longrightarrow>
      (\<exists>m. constructor dat copts = Inr m \<and>
         options m = assignIn defaultOptions copts \<and>
         startWords m = [] \<and> endWords m = [] \<and> corpus m = Some Map.empty \<and>
         length (data m) = length dat \<and>
         (\<forall>i < length dat. \<exists>v. data m ! i = EObj \<lparr> ident = i, string_prop = Some v \<rparr>) \<and>
         (\<forall>i < length dat. \<forall>t. dat ! i = EStr t \<longrightarrow>
            data m ! i = EObj \<lparr> ident = i, string_prop = Some (JStr t) \<rparr>) \<and>
         (\<forall>i < length dat. \<forall>ob. dat ! i = EObj ob \<longrightarrow>
            data m ! i = EObj \<lparr> ident = i, string_prop = Some (JOther (ident ob)) \<rparr>) \<and>
         (\<forall>i < length dat. dat ! i = ENull \<longrightarrow>
            data m ! i = EObj \<lparr> ident = i, string_prop = Some JNull \<rparr>))"
  proof (intro allI impI)
    fix s ds
    assume d: "dat = EStr s # ds"
    have c: "constructor dat copts = Inr (new_model (wrap_all 0 dat) copts)"
      using d by (simp add: constructor_def)
    have n: "\<And>i. i < length dat \<Longrightarrow> wrap_all 0 dat ! i = wrap i (dat ! i)"
      using nth_wrap_all [of _ dat 0] by simp
    have w: "\<And>i. \<exists>v. wrap i (dat ! i) = EObj \<lparr> ident = i, string_prop = Some v \<rparr>"
    proof -
      fix i
      show "\<exists>v. wrap i (dat ! i) = EObj \<lparr> ident = i, string_prop = Some v \<rparr>"
        by (cases "dat ! i") simp_all
    qed
    show "\<exists>m. constructor dat copts = Inr m \<and>
         options m = assignIn defaultOptions copts \<and>
         startWords m = [] \<and> endWords m = [] \<and> corpus m = Some Map.empty \<and>
         length (data m) = length dat \<and>
         (\<forall>i < length dat. \<exists>v. data m ! i = EObj \<lparr> ident = i, string_prop = Some v \<rparr>) \<and>
         (\<forall>i < length dat. \<forall>t. dat ! i = EStr t \<longrightarrow>
            data m ! i = EObj \<lparr> ident = i, string_prop = Some (JStr t) \<rparr>) \<and>
         (\<forall>i < length dat. \<forall>ob. dat ! i = EObj ob \<longrightarrow>
            data m ! i = EObj \<lparr> ident = i, string_prop = Some (JOther (ident ob)) \<rparr>) \<and>
         (\<forall>i < length dat. dat ! i = ENull \<longrightarrow>
            data m ! i = EObj \<lparr> ident = i, string_prop = Some JNull \<rparr>)"
      using c n w by (intro exI [of _ "new_model (wrap_all 0 dat) copts"])
        (simp add: new_model_def length_wrap_all)
  qed
next
  show "\<forall>d ds ds' e. constructor (d # ds) copts = Inl e \<longleftrightarrow> constructor (d # ds') copts = Inl e"
    by (auto simp: constructor_def new_model_def split: elem.splits)
qed

theorem constructor_first_element_witness:
  "constructor late_str no_options = Inr (new_model
      [EObj \<lparr> ident = 0, string_prop = Some (JStr ''a b'') \<rparr>,
       EObj \<lparr> ident = 1, string_prop = Some (JOther 5) \<rparr>,
       EObj \<lparr> ident = 2, string_prop = Some JNull \<rparr>] no_options) \<and>
   (\<exists>m. constructor late_str no_options = Inr m \<and> length (data m) = 3 \<and>
      data m ! 0 = EObj \<lparr> ident = 0, string_prop = Some (JStr ''a b'') \<rparr> \<and>
      data m ! 1 = EObj \<lparr> ident = 1, string_prop = Some (JOther 5) \<rparr> \<and>
      data m ! 2 = EObj \<lparr> ident = 2, string_prop = Some JNull \<rparr> \<and>
      fst (buildCorpusSync m) = Some TypeError) \<and>
   string_prop item_a \<noteq> None \<and>
   constructor late_bad no_options = Inr (new_model late_bad no_options) \<and>
   fst (buildCorpusSync (new_model late_bad no_options)) = Some TypeError \<and>
   constructor [EObj \<lparr> ident = 5, string_prop = None \<rparr>, EObj item_a] no_options
     = Inl InvalidCorpusItem \<and>
   constructor [ENum 5, EObj item_a] no_options = Inl InvalidCorpusItem"
proof -
  have e: "constructor late_str no_options = Inr (new_model
      [EObj \<lparr> ident = 0, string_prop = Some (JStr ''a b'') \<rparr>,
       EObj \<lparr> ident = 1, string_prop = Some (JOther 5) \<rparr>,
       EObj \<lparr> ident = 2, string_prop = Some JNull \<rparr>] no_options)"
    by (simp add: constructor_def late_str_def numeral_2_eq_2)
  have ls: "late_str = EStr ''a b'' # [EObj \<lparr> ident = 5, string_prop = None \<rparr>, ENull]"
    by (simp add: late_str_def)
  from constructor_first_element [of late_str no_options, THEN conjunct2, THEN conjunct2,
      THEN conjunct2, THEN conjunct1, rule_format, OF ls]
  obtain m where m: "constructor late_str no_options = Inr m"
    and l: "length (data m) = length late_str"
    and s: "\<forall>i < length late_str. \<forall>t. late_str ! i = EStr t \<longrightarrow>
            data m ! i = EObj \<lparr> ident = i, string_prop = Some (JStr t) \<rparr>"
    and ob: "\<forall>i < length late_str. \<forall>ob. late_str ! i = EObj ob \<longrightarrow>
            data m ! i = EObj \<lparr> ident = i, string_prop = Some (JOther (ident ob)) \<rparr>"
    and nl: "\<forall>i < length late_str. late_str ! i = ENull \<longrightarrow>
            data m ! i = EObj \<lparr> ident = i, string_prop = Some JNull \<rparr>"
    by (elim exE conjE) blast
  have l3: "length (data m) = 3" using l by (simp add: late_str_def)
  have d0: "data m ! 0 = EObj \<lparr> ident = 0, string_prop = Some (JStr ''a b'') \<rparr>"
    using s [rule_format, of 0 "''a b''"] by (simp add: late_str_def)
  have d1: "data m ! 1 = EObj \<lparr> ident = 1, string_prop = Some (JOther 5) \<rparr>"
    using ob [rule_format, of 1 "\<lparr> ident = 5, string_prop = None \<rparr>"] by (simp add: late_str_def)
  have d2: "data m ! 2 = EObj \<lparr> ident = 2, string_prop = Some JNull \<rparr>"
    using nl [rule_format, of 2] by (simp add: late_str_def)
  have "m = new_model
      [EObj \<lparr> ident = 0, string_prop = Some (JStr ''a b'') \<rparr>,
       EObj \<lparr> ident = 1, string_prop = Some (JOther 5) \<rparr>,
       EObj \<lparr> ident = 2, string_prop = Some JNull \<rparr>] no_options"
    using m e by simp
  then have b: "fst (buildCorpusSync m) = Some TypeError"
    by (simp add: build_eval)
  have x: "\<exists>m. constructor late_str no_options = Inr m \<and> length (data m) = 3 \<and>
      data m ! 0 = EObj \<lparr> ident = 0, string_prop = Some (JStr ''a b'') \<rparr> \<and>
      data m ! 1 = EObj \<lparr> ident = 1, string_prop = Some (JOther 5) \<rparr> \<and>
      data m ! 2 = EObj \<lparr> ident = 2, string_prop = Some JNull \<rparr> \<and>
      fst (buildCorpusSync m) = Some TypeError"
    by (intro exI [of _ m] conjI) (rule m l3 d0 d1 d2 b)+
  have a: "string_prop item_a \<noteq> None" by (simp add: item_a_def)
  have k: "constructor late_bad no_options = Inr (new_model late_bad no_options)"
    by (simp add: constructor_def late_bad_def item_a_def)
  have kb: "fst (buildCorpusSync (new_model late_bad no_options)) = Some TypeError"
    by (simp add: build_eval late_bad_def item_a_def)
  have i1: "constructor [EObj \<lparr> ident = 5, string_prop = None \<rparr>, EObj item_a] no_options
     = Inl InvalidCorpusItem"
    using constructor_first_element
      [of "[EObj \<lparr> ident = 5, string_prop = None \<rparr>, EObj item_a]" no_options]
    by simp
  have i2: "constructor [ENum 5, EObj item_a] no_options = Inl InvalidCorpusItem"
    by (simp add: constructor_def)
  show ?thesis using e x a k kb i1 i2 by blast
qed

section \<open>Claims about generation\<close>

text \<open>
  C2: on a model that was never built, generateSentenceSync should fail with
  ModelNotBuilt. It does not: the constructor sets the corpus to the empty object, which
  is truthy, so the test of line 137 never fires. With no start words the first path
  element is \<^verbatim>\<open>undefined\<close> and the walk throws a TypeError; with maxTries not above 0
  no attempt is made and the call fails with GenerationExhausted.
\<close>

theorem generate_before_build:
  assumes "constructor dat copts = Inr m"
  shows "fst (generateSentenceSync m arg cl rnd p) =
           (if 0 < maxTries (assignIn (options m) arg) then Inl TypeError
            else Inl GenerationExhausted)"
proof -
  have s: "startWords m = []" and c: "corpus m = Some Map.empty"
    using constructor_unbuilt [OF assms] by simp_all
  show ?thesis
  proof (cases "0 < maxTries (assignIn (options m) arg)")
    case True
    then show ?thesis using s c
      by (simp add: generateSentenceSync_def Let_def tries_no_start)
  next
    case False
    then show ?thesis using c
      by (simp add: generateSentenceSync_def Let_def tries_stop)
  qed
qed

theorem generate_before_build_witness:
  "constructor [EStr ''the cat sat on the mat'', EStr ''the dog sat on the rug''] no_options
     = Inr cats \<and>
   fst (generateSentenceSync cats no_options (\<lambda>a. a) (\<lambda>n. 0) 0) = Inl TypeError"
proof -
  have k: "constructor [EStr ''the cat sat on the mat'', EStr ''the dog sat on the rug''] no_options
     = Inr cats"
    by (simp add: constructor_def cats_def)
  have "0 < maxTries (assignIn (options cats) no_options)"
    by (simp add: cats_def new_model_def assignIn_def defaultOptions_def no_options_def pick_def)
  then show ?thesis using k generate_before_build [OF k, of no_options "\<lambda>a. a" "\<lambda>n. 0" 0] by simp
qed

text \<open>
  C4: every result that generateSentenceSync returns meets the configured constraints:
  at least minWords and at most maxWords words when these are positive, at most maxLength
  characters when that is positive, a score of at least minScore and a score per word of
  at least minScorePerWord when these are not zero, a checker and a filter that hold on
  it when configured; and it is made from a walk that ended on a state of endWords.
\<close>

theorem accepted_result_constraints:
  assumes "generateSentenceSync m arg cl rnd p = (Inr r, i, p')"
    and "opts = assignIn (options m) arg"
  shows "(0 < minWords opts \<longrightarrow> minWords opts \<le> int (length (split_sp (rstring r)))) \<and>
         (0 < maxWords opts \<longrightarrow> int (length (split_sp (rstring r))) \<le> maxWords opts) \<and>
         (0 < maxLength opts \<longrightarrow> int (length (rstring r)) \<le> maxLength opts) \<and>
         (minScore opts \<noteq> 0 \<longrightarrow> minScore opts \<le> score r) \<and>
         (minScorePerWord opts \<noteq> 0 \<longrightarrow> minScorePerWord opts \<le> scorePerWord r) \<and>
         (\<forall>c. checker opts = Some c \<longrightarrow> c (rstring r)) \<and>
         (\<forall>f. filter_opt opts = Some f \<longrightarrow> f r) \<and>
         (\<exists>C0 start q arr sc q'. corpus m = Some C0 \<and> start \<in> set (startWords m) \<and>
            walk (cloneDeep cl C0) (endWords m) rnd (maxTries opts) [start] 0 0 q
              = (arr, sc, True, q') \<and>
            r = make_result arr sc \<and> some_words (endWords m) (words (last arr)))"
proof -
  from assms(1) obtain C0 q arr sc q' where c: "corpus m = Some C0" and s: "startWords m \<noteq> []"
    and w: "walk (cloneDeep cl C0) (endWords m) rnd (maxTries (assignIn (options m) arg))
           [startWords m ! (rnd q mod length (startWords m))] 0 0 (Suc q) = (arr, sc, True, q')"
    and r: "r = make_result arr sc" and a: "\<not> rejected (assignIn (options m) arg) True r"
    by (rule generate_accepted)
  have e: "some_words (endWords m) (words (last arr))"
    using walk_path [OF w] by simp
  have st: "startWords m ! (rnd q mod length (startWords m)) \<in> set (startWords m)"
    using s by simp
  have "\<exists>C0 start q arr sc q'. corpus m = Some C0 \<and> start \<in> set (startWords m) \<and>
            walk (cloneDeep cl C0) (endWords m) rnd (maxTries opts) [start] 0 0 q
              = (arr, sc, True, q') \<and>
            r = make_result arr sc \<and> some_words (endWords m) (words (last arr))"
    using c st w r e assms(2) by blast
  moreover have "\<not> rejected opts True r" using a assms(2) by simp
  ultimately show ?thesis
    unfolding rejected_def by (auto split: option.splits)
qed

theorem accepted_result_constraints_witness:
  "generateSentenceSync built_cats strict (\<lambda>a. a + 100) (\<lambda>n. 0) 0 =
     (Inr \<lparr> rstring = ''the cat sat on the mat'', score = 1, scorePerWord = 1,
            rrefs = [\<lparr> ident = 0, string_prop = Some (JStr ''the cat sat on the mat'') \<rparr>] \<rparr>, 0, 3) \<and>
   0 < minWords (assignIn (options built_cats) strict) \<and>
   minWords (assignIn (options built_cats) strict) \<le> int (length (split_sp ''the cat sat on the mat'')) \<and>
   0 < maxWords (assignIn (options built_cats) strict) \<and>
   int (length (split_sp ''the cat sat on the mat'')) \<le> maxWords (assignIn (options built_cats) strict) \<and>
   0 < maxLength (assignIn (options built_cats) strict) \<and>
   int (length ''the cat sat on the mat'') \<le> maxLength (assignIn (options built_cats) strict) \<and>
   minScore (assignIn (options built_cats) strict) \<noteq> 0 \<and>
   minScore (assignIn (options built_cats) strict) \<le> 1 \<and>
   minScorePerWord (assignIn (options built_cats) strict) \<noteq> 0 \<and>
   minScorePerWord (assignIn (options built_cats) strict) \<le> 1"
proof -
  let ?r = "\<lparr> rstring = ''the cat sat on the mat'', score = 1, scorePerWord = 1,
            rrefs = [\<lparr> ident = 0, string_prop = Some (JStr ''the cat sat on the mat'') \<rparr>] \<rparr>"
  have g: "generateSentenceSync built_cats strict (\<lambda>a. a + 100) (\<lambda>n. 0) 0 = (Inr ?r, 0, 3)"
    by code_simp
  have o: "0 < minWords (assignIn (options built_cats) strict)"
    "0 < maxWords (assignIn (options built_cats) strict)"
    "0 < maxLength (assignIn (options built_cats) strict)"
    "minScore (assignIn (options built_cats) strict) \<noteq> 0"
    "minScorePerWord (assignIn (options built_cats) strict) \<noteq> 0"
    by (simp_all add: assignIn_def strict_def no_options_def pick_def)
  from accepted_result_constraints [OF g refl] o g show ?thesis by simp
qed

text \<open>
  C5: for every candidate, that is for the walk of every attempt, the score is the sum
  over the steps of the path of the number of available successors minus one, which is
  0 when every step had one successor only, and the score per word is the ceiling of the
  score divided by the length of the path, the start element counted.
\<close>

theorem candidate_score:
  assumes "walk C ends rnd mx [start] 0 0 p = (arr, sc, e, p')"
  shows "score (make_result arr sc) = path_score C arr \<and>
         steps_ok C arr \<and> hd arr = start \<and>
         ((\<forall>k nexts. C k = Some nexts \<longrightarrow> length nexts \<le> 1) \<longrightarrow> score (make_result arr sc) = 0) \<and>
         scorePerWord (make_result arr sc)
           = \<lceil>real_of_int (score (make_result arr sc)) / real (length arr)\<rceil>"
proof -
  have p: "(\<exists>suf. arr = [start] @ suf) \<and> sc - path_score C arr = 0 - path_score C [start] \<and>
      (steps_ok C [start] \<longrightarrow> steps_ok C arr)"
    using walk_path [OF assms] by simp
  then have sc: "sc = path_score C arr" and ok: "steps_ok C arr" and hd: "hd arr = start"
    by auto
  have "(\<forall>k nexts. C k = Some nexts \<longrightarrow> length nexts \<le> 1) \<longrightarrow> sc = 0"
    using sc ok path_score_forced by blast
  then show ?thesis using sc ok hd by (simp add: make_result_def ceil_div_real)
qed

theorem candidate_score_witness:
  "\<exists>arr sc e p'.
     walk (the (corpus built_cats)) (endWords built_cats) (\<lambda>n. n) 10000
       [hd (startWords built_cats)] 0 0 1 = (arr, sc, e, p') \<and>
     map words arr = [''the cat'', ''sat on'', ''the mat''] \<and> sc = 1 \<and>
     score (make_result arr sc) = path_score (the (corpus built_cats)) arr \<and>
     scorePerWord (make_result arr sc)
       = \<lceil>real_of_int (score (make_result arr sc)) / real (length arr)\<rceil>"
proof -
  obtain arr sc e p' where w:
    "walk (the (corpus built_cats)) (endWords built_cats) (\<lambda>n. n) 10000
       [hd (startWords built_cats)] 0 0 1 = (arr, sc, e, p')"
    by (metis prod_cases4)
  have "map words (fst (walk (the (corpus built_cats)) (endWords built_cats) (\<lambda>n. n) 10000
       [hd (startWords built_cats)] 0 0 1)) = [''the cat'', ''sat on'', ''the mat'']"
    by code_simp
  then have a: "map words arr = [''the cat'', ''sat on'', ''the mat'']" using w by simp
  have "fst (snd (walk (the (corpus built_cats)) (endWords built_cats) (\<lambda>n. n) 10000
       [hd (startWords built_cats)] 0 0 1)) = 1"
    by code_simp
  then have s: "sc = 1" using w by simp
  have c: "score (make_result arr sc) = path_score (the (corpus built_cats)) arr"
    "scorePerWord (make_result arr sc)
       = \<lceil>real_of_int (score (make_result arr sc)) / real (length arr)\<rceil>"
    using candidate_score [OF w] by blast+
  show ?thesis
    by (intro exI [of _ arr] exI [of _ sc] exI [of _ e] exI [of _ p'] conjI) (rule w a s c)+
qed

text \<open>
  C6: generateSentenceSync always returns or throws. The loop over the tries makes at
  most maxTries rounds (the counter at the exit is between 0 and maxTries), the walk of
  an attempt adds at most maxTries elements to the start element, the call draws at most
  maxTries * (1 + maxTries) random numbers, and when no attempt is accepted (and none
  throws) the counter reaches maxTries and the call fails with GenerationExhausted.
\<close>

theorem generate_terminates:
  "\<exists>out i p'. generateSentenceSync m arg cl rnd p = (out, i, p') \<and>
     0 \<le> i \<and> i \<le> max 0 (maxTries (assignIn (options m) arg)) \<and>
     p \<le> p' \<and>
     p' \<le> p + nat (maxTries (assignIn (options m) arg))
                * (1 + nat (maxTries (assignIn (options m) arg))) \<and>
     ((\<exists>r. out = Inr r \<and> i < maxTries (assignIn (options m) arg)) \<or>
      (out = Inl TypeError \<and> startWords m = [] \<and> i = 0 \<and> 0 < maxTries (assignIn (options m) arg)) \<or>
      (out = Inl ModelNotBuilt \<and> corpus m = None \<and> i = 0) \<or>
      (out = Inl GenerationExhausted \<and> i = max 0 (maxTries (assignIn (options m) arg)))) \<and>
     (\<forall>C ends start q.
        length (fst (walk C ends rnd (maxTries (assignIn (options m) arg)) [start] 0 0 q))
          \<le> 1 + nat (maxTries (assignIn (options m) arg)))"
proof -
  let ?mx = "maxTries (assignIn (options m) arg)"
  have walks: "\<forall>C ends start q. length (fst (walk C ends rnd ?mx [start] 0 0 q)) \<le> 1 + nat ?mx"
  proof (intro allI)
    fix C ends start q
    obtain arr sc e q' where w: "walk C ends rnd ?mx [start] 0 0 q = (arr, sc, e, q')"
      by (metis prod_cases4)
    from walk_bound [OF w] show "length (fst (walk C ends rnd ?mx [start] 0 0 q)) \<le> 1 + nat ?mx"
      using w by simp
  qed
  show ?thesis
  proof (cases "corpus m")
    case None
    then have "generateSentenceSync m arg cl rnd p = (Inl ModelNotBuilt, 0, p)"
      by (simp add: generateSentenceSync_def)
    then show ?thesis using None walks by simp
  next
    case (Some C0)
    obtain out i p' where t: "tries m (cloneDeep cl C0) (assignIn (options m) arg) rnd ?mx 0 p
        = (out, i, p')"
      by (metis prod_cases3)
    then have g: "generateSentenceSync m arg cl rnd p = (out, i, p')"
      using Some by (simp add: generateSentenceSync_def Let_def)
    from tries_outcome [OF t] have
      o: "(out = Inl GenerationExhausted \<and> i = max 0 ?mx) \<or>
          (out = Inl TypeError \<and> startWords m = [] \<and> i = 0 \<and> 0 < ?mx) \<or>
          (\<exists>r. out = Inr r \<and> 0 \<le> i \<and> i < ?mx)"
      and b: "p \<le> p'" "p' \<le> p + nat ?mx * (1 + nat ?mx)"
      by simp_all
    have i: "0 \<le> i \<and> i \<le> max 0 ?mx" using o by auto
    have "(\<exists>r. out = Inr r \<and> i < ?mx) \<or>
      (out = Inl TypeError \<and> startWords m = [] \<and> i = 0 \<and> 0 < ?mx) \<or>
      (out = Inl ModelNotBuilt \<and> corpus m = None \<and> i = 0) \<or>
      (out = Inl GenerationExhausted \<and> i = max 0 ?mx)"
      using o by blast
    then show ?thesis using g i b walks by blast
  qed
qed

theorem generate_terminates_witness:
  "generateSentenceSync built_cats
      (no_options\<lparr> minWords_arg := Some 100, maxTries_arg := Some 20 \<rparr>) (\<lambda>a. a) (\<lambda>n. n) 0
     = (Inl GenerationExhausted, 20, 60) \<and>
   (60::nat) \<le> 0 + nat 20 * (1 + nat 20)"
proof -
  have g: "generateSentenceSync built_cats
      (no_options\<lparr> minWords_arg := Some 100, maxTries_arg := Some 20 \<rparr>) (\<lambda>a. a) (\<lambda>n. n) 0
     = (Inl GenerationExhausted, 20, 60)"
    by code_simp
  have mx: "maxTries (assignIn (options built_cats)
      (no_options\<lparr> minWords_arg := Some 100, maxTries_arg := Some 20 \<rparr>)) = 20"
    by (simp add: assignIn_def no_options_def pick_def)
  from generate_terminates [of built_cats
      "no_options\<lparr> minWords_arg := Some 100, maxTries_arg := Some 20 \<rparr>" "\<lambda>a. a" "\<lambda>n. n" 0]
  show ?thesis unfolding g mx by simp
qed

text \<open>
  C7: every returned result is made from the path of an accepted attempt, a walk that
  starts at an entry of startWords, and its refs are the refs of the elements of that
  path, the start entry first, in path order, with the first occurrence of every
  \<^verbatim>\<open>string\<close> value kept and the later ones dropped: every ref of the result is a ref of
  a path element, every \<^verbatim>\<open>string\<close> of a ref of a path element is the \<^verbatim>\<open>string\<close> of a
  ref of the result, and no two entries have the same \<^verbatim>\<open>string\<close>, so two items with
  the same text are one entry.
\<close>

theorem result_refs_unique:
  assumes "generateSentenceSync m arg cl rnd p = (Inr r, i, p')"
  shows "distinct (map item_string (rrefs r)) \<and>
         (\<forall>a \<in> set (rrefs r). \<forall>b \<in> set (rrefs r). item_string a = item_string b \<longrightarrow> a = b) \<and>
         (\<exists>C0 start q arr sc q'. corpus m = Some C0 \<and> start \<in> set (startWords m) \<and>
            walk (cloneDeep cl C0) (endWords m) rnd (maxTries (assignIn (options m) arg))
              [start] 0 0 q = (arr, sc, True, q') \<and>
            hd arr = start \<and> steps_ok (cloneDeep cl C0) arr \<and>
            r = make_result arr sc \<and>
            rrefs r = first_by item_string (concat (map refs arr)) \<and>
            set (rrefs r) \<subseteq> set (concat (map refs arr)) \<and>
            item_string ` set (rrefs r) = item_string ` set (concat (map refs arr)))"
proof -
  from assms obtain C0 q arr sc q' where c: "corpus m = Some C0" and s: "startWords m \<noteq> []"
    and w: "walk (cloneDeep cl C0) (endWords m) rnd (maxTries (assignIn (options m) arg))
           [startWords m ! (rnd q mod length (startWords m))] 0 0 (Suc q) = (arr, sc, True, q')"
    and r: "r = make_result arr sc"
    by (rule generate_accepted)
  let ?start = "startWords m ! (rnd q mod length (startWords m))"
  have st: "?start \<in> set (startWords m)" using s by simp
  have "(\<exists>suf. arr = [?start] @ suf) \<and> (steps_ok (cloneDeep cl C0) [?start]
      \<longrightarrow> steps_ok (cloneDeep cl C0) arr)"
    using walk_path [OF w] by simp
  then have hd: "hd arr = ?start" and ok: "steps_ok (cloneDeep cl C0) arr" by auto
  have rr: "rrefs r = first_by item_string (concat (map refs arr))"
    using r by (simp add: make_result_def uniqBy_first_by)
  then have d: "distinct (map item_string (rrefs r))" by (simp add: distinct_first_by)
  then have "inj_on item_string (set (rrefs r))" by (simp add: distinct_map)
  then have inj: "\<forall>a \<in> set (rrefs r). \<forall>b \<in> set (rrefs r). item_string a = item_string b \<longrightarrow> a = b"
    by (auto dest: inj_onD)
  have sub: "set (rrefs r) \<subseteq> set (concat (map refs arr))"
    using rr set_first_by [of item_string "concat (map refs arr)"] by simp
  have k: "item_string ` set (rrefs r) = item_string ` set (concat (map refs arr))"
    using rr keys_first_by [of item_string "concat (map refs arr)"] by simp
  have "\<exists>C0 start q arr sc q'. corpus m = Some C0 \<and> start \<in> set (startWords m) \<and>
            walk (cloneDeep cl C0) (endWords m) rnd (maxTries (assignIn (options m) arg))
              [start] 0 0 q = (arr, sc, True, q') \<and>
            hd arr = start \<and> steps_ok (cloneDeep cl C0) arr \<and>
            r = make_result arr sc \<and>
            rrefs r = first_by item_string (concat (map refs arr)) \<and>
            set (rrefs r) \<subseteq> set (concat (map refs arr)) \<and>
            item_string ` set (rrefs r) = item_string ` set (concat (map refs arr))"
    by (intro exI [of _ C0] exI [of _ ?start] exI [of _ "Suc q"] exI [of _ arr] exI [of _ sc]
        exI [of _ q'] conjI) (rule c st w hd ok r rr sub k)+
  then show ?thesis using d inj by blast
qed

theorem result_refs_unique_witness:
  "(\<exists>r. generateSentenceSync (snd (buildCorpusSync twins)) no_options (\<lambda>a. a + 100) (\<lambda>n. 0) 0
        = (Inr r, 0, 2) \<and>
     map refs (startWords (snd (buildCorpusSync twins)))
        = [[\<lparr> ident = 0, string_prop = Some (JStr ''a b c d'') \<rparr>,
            \<lparr> ident = 1, string_prop = Some (JStr ''a b c d'') \<rparr>]] \<and>
     rrefs r = [\<lparr> ident = 0, string_prop = Some (JStr ''a b c d'') \<rparr>] \<and>
     distinct (map item_string (rrefs r))) \<and>
   (\<exists>r. generateSentenceSync built_cats no_options (\<lambda>a. a + 100) second_at_2 0 = (Inr r, 0, 3) \<and>
     rstring r = ''the cat sat on the rug'' \<and>
     rrefs r = [\<lparr> ident = 0, string_prop = Some (JStr ''the cat sat on the mat'') \<rparr>,
                \<lparr> ident = 101, string_prop = Some (JStr ''the dog sat on the rug'') \<rparr>] \<and>
     distinct (map item_string (rrefs r)))"
proof
  let ?r = "\<lparr> rstring = ''a b c d'', score = 0, scorePerWord = 0,
            rrefs = [\<lparr> ident = 0, string_prop = Some (JStr ''a b c d'') \<rparr>] \<rparr>"
  have g: "generateSentenceSync (snd (buildCorpusSync twins)) no_options (\<lambda>a. a + 100) (\<lambda>n. 0) 0
        = (Inr ?r, 0, 2)"
    by code_simp
  have s: "map refs (startWords (snd (buildCorpusSync twins)))
        = [[\<lparr> ident = 0, string_prop = Some (JStr ''a b c d'') \<rparr>,
            \<lparr> ident = 1, string_prop = Some (JStr ''a b c d'') \<rparr>]]"
    by code_simp
  from result_refs_unique [OF g] have "distinct (map item_string (rrefs ?r))" by blast
  then show "\<exists>r. generateSentenceSync (snd (buildCorpusSync twins)) no_options (\<lambda>a. a + 100)
        (\<lambda>n. 0) 0 = (Inr r, 0, 2) \<and>
     map refs (startWords (snd (buildCorpusSync twins)))
        = [[\<lparr> ident = 0, string_prop = Some (JStr ''a b c d'') \<rparr>,
            \<lparr> ident = 1, string_prop = Some (JStr ''a b c d'') \<rparr>]] \<and>
     rrefs r = [\<lparr> ident = 0, string_prop = Some (JStr ''a b c d'') \<rparr>] \<and>
     distinct (map item_string (rrefs r))"
    using g s by (intro exI [of _ ?r]) simp
next
  let ?r = "\<lparr> rstring = ''the cat sat on the rug'', score = 1, scorePerWord = 1,
            rrefs = [\<lparr> ident = 0, string_prop = Some (JStr ''the cat sat on the mat'') \<rparr>,
                     \<lparr> ident = 101, string_prop = Some (JStr ''the dog sat on the rug'') \<rparr>] \<rparr>"
  have g: "generateSentenceSync built_cats no_options (\<lambda>a. a + 100) second_at_2 0 = (Inr ?r, 0, 3)"
    by code_simp
  from result_refs_unique [OF g] have "distinct (map item_string (rrefs ?r))" by blast
  then show "\<exists>r. generateSentenceSync built_cats no_options (\<lambda>a. a + 100) second_at_2 0
        = (Inr r, 0, 3) \<and>
     rstring r = ''the cat sat on the rug'' \<and>
     rrefs r = [\<lparr> ident = 0, string_prop = Some (JStr ''the cat sat on the mat'') \<rparr>,
                \<lparr> ident = 101, string_prop = Some (JStr ''the dog sat on the rug'') \<rparr>] \<and>
     distinct (map item_string (rrefs r))"
    using g by (intro exI [of _ ?r]) simp
qed

text \<open>
  C9, as it is written, fails. The model \<open>ab\<close> is built from the one line "a b" at state
  size 2: no transition, and the start state is an end state as well. The claim lets
  GenerationExhausted happen only when the start state is never an end state, and has
  the walk reach ended = true otherwise; the call fails with GenerationExhausted after
  10000 attempts.
\<close>

theorem short_line_counterexample:
  "map words (startWords (snd (buildCorpusSync ab))) = [''a b''] \<and>
   some_words (endWords (snd (buildCorpusSync ab))) ''a b'' \<and>
   generateSentenceSync (snd (buildCorpusSync ab)) no_options (\<lambda>a. a) (\<lambda>n. 0) 0
     = (Inl GenerationExhausted, 10000, 10000)"
proof -
  have s: "map words (startWords (snd (buildCorpusSync ab))) = [''a b'']"
    by (simp add: build_eval ab_def)
  have e: "some_words (endWords (snd (buildCorpusSync ab))) ''a b''"
    by (simp add: build_eval ab_def some_words_def)
  have c: "corpus (snd (buildCorpusSync ab)) = Some Map.empty"
    by (simp add: build_eval ab_def)
  have n: "startWords (snd (buildCorpusSync ab)) \<noteq> []" using s by auto
  have o: "maxTries (assignIn (options (snd (buildCorpusSync ab))) no_options) = 10000"
    by (simp add: build_eval ab_def case_prod_beta)
  show ?thesis using s e generate_no_transitions [OF c n, of no_options "\<lambda>a. a" "\<lambda>n. 0" 0] o
    by simp
qed

text \<open>
  C9, amended: for every model built without error from data that are not empty and
  whose every line has fewer than 2 * stateSize words, the corpus has no transition, no
  walk takes a step or sets ended, and every call of generateSentenceSync fails with
  GenerationExhausted, whether or not a start state is an end state as well.
\<close>

theorem short_lines_exhaust:
  assumes "buildCorpusSync m = (None, m')" and "data m \<noteq> []"
    and "\<forall>it line. EObj it \<in> set (data m) \<longrightarrow> item_string it = JStr line \<longrightarrow>
           int (length (split_sp line)) < 2 * stateSize (options m)"
  shows "corpus m' = Some Map.empty \<and>
         generateSentenceSync m' arg cl rnd p =
           (Inl GenerationExhausted, max 0 (maxTries (assignIn (options m') arg)),
            p + nat (maxTries (assignIn (options m') arg))) \<and>
         (\<forall>mx start q. walk (cloneDeep cl Map.empty) (endWords m') rnd mx [start] 0 0 q
            = ([start], 0, False, q))"
proof -
  obtain err S E C where f: "forEach_item (stateSize (options m)) (data m)
       (startWords m, endWords m, Map.empty) = (err, S, E, C)"
    by (metis prod_cases4)
  then have b: "buildCorpusSync m = (err, m\<lparr> startWords := S, endWords := E, corpus := Some C \<rparr>)"
    by (simp add: buildCorpusSync_def)
  then have err: "err = None" and m': "m' = m\<lparr> startWords := S, endWords := E, corpus := Some C \<rparr>"
    using assms(1) by simp_all
  have "C = Map.empty" using forEach_item_short [OF f assms(3)] .
  then have c: "corpus m' = Some Map.empty" using m' by simp
  have "S \<noteq> []" using forEach_item_start_not_Nil [of _ _ _ _ _ S E C] f err assms(2) by blast
  then have s: "startWords m' \<noteq> []" using m' by simp
  have "\<forall>mx start q. walk (cloneDeep cl Map.empty) (endWords m') rnd mx [start] 0 0 q
            = ([start], 0, False, q)"
    by (simp add: walk_none cloneDeep_empty)
  then show ?thesis using c generate_no_transitions [OF c s] by blast
qed

theorem short_lines_exhaust_witness:
  "buildCorpusSync ab = (None, snd (buildCorpusSync ab)) \<and> data ab \<noteq> [] \<and>
   data ab = [EObj \<lparr> ident = 0, string_prop = Some (JStr ''a b'') \<rparr>] \<and>
   int (length (split_sp ''a b'')) < 2 * stateSize (options ab) \<and>
   corpus (snd (buildCorpusSync ab)) = Some Map.empty \<and>
   generateSentenceSync (snd (buildCorpusSync ab)) (no_options\<lparr> maxTries_arg := Some 3 \<rparr>)
       (\<lambda>a. a) (\<lambda>n. 0) 0 = (Inl GenerationExhausted, 3, 3)"
proof -
  have "fst (buildCorpusSync ab) = None" by (simp add: build_eval ab_def)
  then have b: "buildCorpusSync ab = (None, snd (buildCorpusSync ab))"
    by (metis prod.collapse)
  have d: "data ab \<noteq> []" by (simp add: ab_def new_model_def)
  have l: "\<forall>it line. EObj it \<in> set (data ab) \<longrightarrow> item_string it = JStr line \<longrightarrow>
           int (length (split_sp line)) < 2 * stateSize (options ab)"
    by (auto simp: build_eval ab_def)
  have o: "maxTries (assignIn (options (snd (buildCorpusSync ab)))
       (no_options\<lparr> maxTries_arg := Some 3 \<rparr>)) = 3"
    by (simp add: assignIn_def no_options_def pick_def)
  from short_lines_exhaust [OF b d l, of "no_options\<lparr> maxTries_arg := Some 3 \<rparr>" "\<lambda>a. a" "\<lambda>n. 0" 0]
  show ?thesis using b d unfolding o by (simp add: build_eval ab_def)
qed

end
